theory Spec2Isabelle
  imports Complex_Main "HOL-Library.Word" "HOL-Library.Sublist" "HOL-Library.Monad_Syntax"
begin

section \<open>The polyline decimation filter (vtkDecimatePolylineFilter.cxx)\<close>

text \<open>
  Conventions of the embedding.
  \<^item> \<open>vtkIdType\<close> is \<open>int\<close>; the \<open>unsigned index\<close> field of a vertex is a 32-bit word.
  \<^item> A \<open>double\<close> is read as the real number it denotes: rounding, infinities and NaN are
    not part of the model.
  \<^item> A \<open>Vertex*\<close> always points into the \<open>Vertices\<close> array of its own polyline or is
    \<open>nullptr\<close>: it is a slot number or \<open>None\<close>.
  \<^item> Every function that dereferences a pointer or indexes an array returns an
    \<open>option\<close>: \<open>None\<close> stands for an execution without a defined result (a null
    dereference, an access outside an array, or a loop that does not return).
  \<^item> \<open>CopyData\<close> on the attribute tables is recorded as the list of its
    (source id, destination id) calls.
  \<^item> The storage precision chosen by \<open>OutputPointsPrecision\<close> is not modelled:
    coordinates are copied as they are.
\<close>

subsection \<open>Data\<close>

type_synonym vtkIdType = int

type_synonym point = "real \<times> real \<times> real"

record Vertex =
  index :: "32 word"
  id_v :: vtkIdType
  prev :: "nat option"
  next_v :: "nat option"
  removable :: bool

record Polyline =
  Size :: vtkIdType
  Vertices :: "Vertex list"
  IsLoop :: bool

text \<open>The part of \<open>vtkPolyData\<close> the filter reads: the points and the line cells, either
  of which may be absent (a null pointer).\<close>

record vtkPolyData =
  Points :: "point list option"
  Lines :: "vtkIdType list list option"

text \<open>Modelled from the spec: \<open>vtkPriorityQueue\<close> is not among the sources. The spec
  asks for a min-priority queue with insert(priority, id), pop-minimum returning the id or
  a sentinel for "empty", delete-by-id (a no-op if the id is absent) and reset. The entries
  are kept sorted by priority; among equal priorities the entry inserted last is popped
  first.\<close>

type_synonym vtkPriorityQueue = "(real \<times> vtkIdType) list"

definition Insert :: "real \<Rightarrow> vtkIdType \<Rightarrow> vtkPriorityQueue \<Rightarrow> vtkPriorityQueue" where
  "Insert priority i q = insort_key fst (priority, i) q"

definition Pop :: "vtkPriorityQueue \<Rightarrow> vtkIdType \<times> vtkPriorityQueue" where
  "Pop q = (case q of [] \<Rightarrow> (- 1, []) | e # r \<Rightarrow> (snd e, r))"

definition DeleteId :: "vtkIdType \<Rightarrow> vtkPriorityQueue \<Rightarrow> vtkPriorityQueue" where
  "DeleteId i q = filter (\<lambda>e. snd e \<noteq> i) q"

definition Reset :: "vtkPriorityQueue \<Rightarrow> vtkPriorityQueue" where
  "Reset q = []"

record vtkDecimatePolylineFilter =
  TargetReduction :: real
  MaximumError :: real
  PriorityQueue :: vtkPriorityQueue

text \<open>Modelled from the spec: the macro \<open>VTK_DOUBLE_MAX\<close> is not among the sources; the
  spec calls it the largest representable value, which for a double is
  \<open>(2^53 - 1) * 2^971\<close>.\<close>

definition VTK_DOUBLE_MAX :: real where
  "VTK_DOUBLE_MAX = (2 ^ 53 - 1) * 2 ^ 971"

definition new_vtkDecimatePolylineFilter :: vtkDecimatePolylineFilter where
  "new_vtkDecimatePolylineFilter =
     \<lparr>TargetReduction = 9 / 10, MaximumError = VTK_DOUBLE_MAX, PriorityQueue = []\<rparr>"

text \<open>What \<open>RequestData\<close> builds: the new points, the new line cells (each with the size
  it was declared with and the point ids inserted into it), the calls of \<open>CopyData\<close> on
  the point and the cell attributes, and the map from old to new point ids.\<close>

record outputs =
  newPts :: "point list"
  newLines :: "(vtkIdType \<times> vtkIdType list) list"
  outPD :: "(vtkIdType \<times> vtkIdType) list"
  outCD :: "(vtkIdType \<times> vtkIdType) list"
  pointIdMap :: "vtkIdType \<rightharpoonup> vtkIdType"

definition empty_output :: outputs where
  "empty_output = \<lparr>newPts = [], newLines = [], outPD = [], outCD = [], pointIdMap = Map.empty\<rparr>"

subsection \<open>Array and pointer access\<close>

definition nth_at :: "'a list \<Rightarrow> vtkIdType \<Rightarrow> 'a option" where
  "nth_at xs i = (if 0 \<le> i \<and> i < int (length xs) then Some (xs ! nat i) else None)"

definition deref :: "Vertex list \<Rightarrow> nat option \<Rightarrow> Vertex option" where
  "deref vs p = (case p of None \<Rightarrow> None | Some a \<Rightarrow> nth_at vs (int a))"

definition GetPoint :: "point list \<Rightarrow> vtkIdType \<Rightarrow> point option" where
  "GetPoint pts i = nth_at pts i"

subsection \<open>Polyline\<close>

definition new_Vertex :: "vtkIdType list \<Rightarrow> nat \<Rightarrow> nat \<Rightarrow> Vertex" where
  "new_Vertex vertexOrdering sz idx =
     \<lparr>index = word_of_nat idx,
      id_v = vertexOrdering ! idx,
      prev = (if idx > 0 then Some (idx - 1) else None),
      next_v = (if int idx < int sz - 1 then Some (idx + 1) else None),
      removable = True\<rparr>"

definition new_Polyline :: "vtkIdType list \<Rightarrow> Polyline option" where
  "new_Polyline vertexOrdering =
     (let sz = length vertexOrdering;
          vs = map (new_Vertex vertexOrdering sz) [0..<sz]
      in do {
        last_v \<leftarrow> nth_at vs (int sz - 1);
        let vs1 = vs[sz - 1 := last_v\<lparr>removable := False\<rparr>];
        first_v \<leftarrow> nth_at vs1 0;
        let vs2 = vs1[0 := first_v\<lparr>removable := False\<rparr>];
        v0 \<leftarrow> nth_at vs2 0;
        vn \<leftarrow> nth_at vs2 (int sz - 1);
        Some \<lparr>Size = int sz, Vertices = vs2, IsLoop = (id_v v0 = id_v vn)\<rparr>
      })"

definition Remove :: "Polyline \<Rightarrow> vtkIdType \<Rightarrow> Polyline option" where
  "Remove this vertexIdx =
     (let vs = Vertices this in do {
        v \<leftarrow> nth_at vs vertexIdx;
        p \<leftarrow> prev v;
        vp \<leftarrow> nth_at vs (int p);
        let vs1 = vs[p := vp\<lparr>next_v := next_v v\<rparr>];
        v1 \<leftarrow> nth_at vs1 vertexIdx;
        n \<leftarrow> next_v v1;
        vn \<leftarrow> nth_at vs1 (int n);
        let vs2 = vs1[n := vn\<lparr>prev := prev v1\<rparr>];
        Some (this\<lparr>Size := Size this - 1, Vertices := vs2\<rparr>)
      })"

subsection \<open>The error of a vertex\<close>

text \<open>Modelled from the spec: \<open>vtkMath::Distance2BetweenPoints\<close> and
  \<open>vtkLine::DistanceToLine\<close> are not among the sources. The spec asks for a
  squared-distance-between-points primitive and for the standard perpendicular distance
  from a point to the infinite line through two points: the distance from the point to
  its orthogonal projection on the line.\<close>

definition Distance2BetweenPoints :: "point \<Rightarrow> point \<Rightarrow> real" where
  "Distance2BetweenPoints p q =
     (case p of (p0, p1, p2) \<Rightarrow> case q of (q0, q1, q2) \<Rightarrow>
        (p0 - q0)\<^sup>2 + (p1 - q1)\<^sup>2 + (p2 - q2)\<^sup>2)"

definition Dot :: "point \<Rightarrow> point \<Rightarrow> real" where
  "Dot p q = (case p of (p0, p1, p2) \<Rightarrow> case q of (q0, q1, q2) \<Rightarrow> p0 * q0 + p1 * q1 + p2 * q2)"

definition Subtract :: "point \<Rightarrow> point \<Rightarrow> point" where
  "Subtract p q = (case p of (p0, p1, p2) \<Rightarrow> case q of (q0, q1, q2) \<Rightarrow> (p0 - q0, p1 - q1, p2 - q2))"

definition line_point :: "point \<Rightarrow> point \<Rightarrow> real \<Rightarrow> point" where
  "line_point p1 p2 t =
     (case p1 of (a0, a1, a2) \<Rightarrow> case p2 of (b0, b1, b2) \<Rightarrow>
        (a0 + t * (b0 - a0), a1 + t * (b1 - a1), a2 + t * (b2 - a2)))"

definition DistanceToLine :: "point \<Rightarrow> point \<Rightarrow> point \<Rightarrow> real" where
  "DistanceToLine x p1 p2 =
     (let v = Subtract p2 p1;
          t = Dot (Subtract x p1) v / Dot v v
      in sqrt (Distance2BetweenPoints x (line_point p1 p2 t)))"

definition ComputeError :: "vtkPolyData \<Rightarrow> Polyline \<Rightarrow> vtkIdType \<Rightarrow> real option" where
  "ComputeError input polyline idx = do {
     inputPoints \<leftarrow> Points input;
     v \<leftarrow> nth_at (Vertices polyline) idx;
     vp \<leftarrow> deref (Vertices polyline) (prev v);
     x1 \<leftarrow> GetPoint inputPoints (id_v vp);
     x \<leftarrow> GetPoint inputPoints (id_v v);
     vn \<leftarrow> deref (Vertices polyline) (next_v v);
     x2 \<leftarrow> GetPoint inputPoints (id_v vn);
     Some (if Distance2BetweenPoints x1 x2 = 0 then 0 else DistanceToLine x x1 x2)
   }"

subsection \<open>RequestData\<close>

text \<open>The first loop over the vertices of a polyline: every removable vertex whose error does
  not exceed \<open>MaximumError\<close> enters the queue.\<close>

definition enqueue :: "vtkDecimatePolylineFilter \<Rightarrow> real \<Rightarrow> vtkIdType \<Rightarrow> vtkPriorityQueue \<Rightarrow> vtkPriorityQueue" where
  "enqueue this error idx q = (if error \<le> MaximumError this then Insert error idx q else q)"

function seed :: "vtkPolyData \<Rightarrow> vtkDecimatePolylineFilter \<Rightarrow> Polyline \<Rightarrow> vtkIdType \<Rightarrow> vtkPriorityQueue
    \<Rightarrow> vtkPriorityQueue option" where
  "seed input this polyline vertexIdx q =
     (if vertexIdx < Size polyline then
        (case nth_at (Vertices polyline) vertexIdx of
           None \<Rightarrow> None
         | Some v \<Rightarrow>
             if removable v then
               (case ComputeError input polyline vertexIdx of
                  None \<Rightarrow> None
                | Some error \<Rightarrow> seed input this polyline (vertexIdx + 1) (enqueue this error vertexIdx q))
             else seed input this polyline (vertexIdx + 1) q)
      else Some q)"
  by pat_completeness auto
termination
  by (relation "measure (\<lambda>(input, this, polyline, vertexIdx, q). nat (Size polyline - vertexIdx))") auto

declare seed.simps [simp del]

text \<open>The condition of the reduction loop.\<close>

definition reducing :: "vtkDecimatePolylineFilter \<Rightarrow> Polyline \<Rightarrow> vtkIdType \<Rightarrow> vtkIdType \<Rightarrow> bool" where
  "reducing this polyline polylineSize currentNumPts =
     (1 - real_of_int currentNumPts / real_of_int polylineSize < TargetReduction this \<and>
      ((\<not> IsLoop polyline \<and> currentNumPts > 2) \<or> (IsLoop polyline \<and> currentNumPts > 3)))"

text \<open>After a removal, a removable neighbour gets its error recomputed and its queue entry
  replaced.\<close>

definition requeue :: "vtkPolyData \<Rightarrow> vtkDecimatePolylineFilter \<Rightarrow> Polyline \<Rightarrow> Vertex \<Rightarrow> vtkIdType
    \<Rightarrow> vtkPriorityQueue \<Rightarrow> vtkPriorityQueue option" where
  "requeue input this polyline neighbour neighbourIdx q =
     (if removable neighbour then do {
        error \<leftarrow> ComputeError input polyline neighbourIdx;
        Some (enqueue this error neighbourIdx (DeleteId neighbourIdx q))
      } else Some q)"

text \<open>The body of the reduction loop after a successful pop.\<close>

definition remove_popped :: "vtkPolyData \<Rightarrow> vtkDecimatePolylineFilter \<Rightarrow> Polyline \<Rightarrow> vtkPriorityQueue
    \<Rightarrow> vtkIdType \<Rightarrow> (Polyline \<times> vtkPriorityQueue) option" where
  "remove_popped input this polyline0 q poppedIdx = do {
     polyline \<leftarrow> Remove polyline0 poppedIdx;
     v \<leftarrow> nth_at (Vertices polyline) poppedIdx;
     vprev \<leftarrow> deref (Vertices polyline) (prev v);
     let prevIdx = uint (index vprev);
     vnext \<leftarrow> deref (Vertices polyline) (next_v v);
     let nextIdx = uint (index vnext);
     q1 \<leftarrow> requeue input this polyline vprev prevIdx q;
     q2 \<leftarrow> requeue input this polyline vnext nextIdx q1;
     Some (polyline, q2)
   }"

function reduce :: "vtkPolyData \<Rightarrow> vtkDecimatePolylineFilter \<Rightarrow> vtkIdType \<Rightarrow> Polyline \<Rightarrow> vtkPriorityQueue
    \<Rightarrow> vtkIdType \<Rightarrow> (Polyline \<times> vtkPriorityQueue \<times> vtkIdType) option" where
  "reduce input this polylineSize polyline q currentNumPts =
     (if reducing this polyline polylineSize currentNumPts then
        (case Pop q of (poppedIdx, q0) \<Rightarrow>
           if poppedIdx < 0 then Some (polyline, q0, currentNumPts)
           else
             (case remove_popped input this polyline q0 poppedIdx of
                None \<Rightarrow> None
              | Some (polyline', q') \<Rightarrow> reduce input this polylineSize polyline' q' (currentNumPts - 1)))
      else Some (polyline, q, currentNumPts))"
  by pat_completeness auto
termination
  by (relation "measure (\<lambda>(input, this, polylineSize, polyline, q, currentNumPts). nat currentNumPts)")
    (auto simp: reducing_def)

declare reduce.simps [simp del]

text \<open>The construction and seeding of one polyline: the state in which the reduction loop
  is entered.\<close>

definition start_state :: "vtkPolyData \<Rightarrow> vtkDecimatePolylineFilter \<Rightarrow> vtkPriorityQueue \<Rightarrow> vtkIdType list
    \<Rightarrow> (Polyline \<times> vtkPriorityQueue \<times> vtkIdType) option" where
  "start_state input this q polyLineVerts = do {
     polyline \<leftarrow> new_Polyline polyLineVerts;
     q1 \<leftarrow> seed input this polyline 0 q;
     Some (polyline, q1, int (length polyLineVerts))
   }"

text \<open>The construction, seeding and reduction of one polyline.\<close>

definition decimate :: "vtkPolyData \<Rightarrow> vtkDecimatePolylineFilter \<Rightarrow> vtkPriorityQueue \<Rightarrow> vtkIdType list
    \<Rightarrow> (Polyline \<times> vtkPriorityQueue \<times> vtkIdType) option" where
  "decimate input this q polyLineVerts = do {
     (polyline, q1, currentNumPts) \<leftarrow> start_state input this q polyLineVerts;
     reduce input this (int (length polyLineVerts)) polyline q1 currentNumPts
   }"

text \<open>The states in which the head of the reduction loop is reached, from a given state.\<close>

inductive visits :: "vtkPolyData \<Rightarrow> vtkDecimatePolylineFilter \<Rightarrow> vtkIdType
    \<Rightarrow> Polyline \<times> vtkPriorityQueue \<times> vtkIdType \<Rightarrow> Polyline \<times> vtkPriorityQueue \<times> vtkIdType \<Rightarrow> bool"
  for input this polylineSize s where
  visits_start: "visits input this polylineSize s s"
| visits_step: "visits input this polylineSize s (polyline, q, currentNumPts) \<Longrightarrow>
     reducing this polyline polylineSize currentNumPts \<Longrightarrow>
     Pop q = (poppedIdx, q0) \<Longrightarrow> \<not> poppedIdx < 0 \<Longrightarrow>
     remove_popped input this polyline q0 poppedIdx = Some (polyline', q') \<Longrightarrow>
     visits input this polylineSize s (polyline', q', currentNumPts - 1)"

text \<open>Modelled from the spec: \<open>vtkCellArray\<close> is not among the sources. \<open>InsertNextCell\<close>
  opens a new cell of a declared size and returns its id; \<open>InsertCellPoint\<close> appends a point
  id to the cell opened last.\<close>

definition InsertNextCell :: "vtkIdType \<Rightarrow> (vtkIdType \<times> vtkIdType list) list
    \<Rightarrow> vtkIdType \<times> (vtkIdType \<times> vtkIdType list) list" where
  "InsertNextCell npts cells = (int (length cells), cells @ [(npts, [])])"

definition InsertCellPoint :: "vtkIdType \<Rightarrow> (vtkIdType \<times> vtkIdType list) list
    \<Rightarrow> (vtkIdType \<times> vtkIdType list) list" where
  "InsertCellPoint i cells =
     (if cells = [] then [] else butlast cells @ [(fst (last cells), snd (last cells) @ [i])])"

text \<open>The walk over the vertices that are left, from the first slot along the \<open>next\<close>
  pointers.\<close>

definition emit_vertex :: "point list \<Rightarrow> Vertex \<Rightarrow> outputs \<Rightarrow> outputs option" where
  "emit_vertex inputPoints vertex out =
     (case pointIdMap out (id_v vertex) of
        None \<Rightarrow> do {
          x \<leftarrow> GetPoint inputPoints (id_v vertex);
          let newId = int (length (newPts out));
          Some (out\<lparr>newPts := newPts out @ [x],
                    newLines := InsertCellPoint newId (newLines out),
                    outPD := outPD out @ [(id_v vertex, newId)],
                    pointIdMap := (pointIdMap out)(id_v vertex \<mapsto> newId)\<rparr>)
        }
      | Some second \<Rightarrow> Some (out\<lparr>newLines := InsertCellPoint second (newLines out)\<rparr>))"

partial_function (option) emit :: "point list \<Rightarrow> Polyline \<Rightarrow> nat option \<Rightarrow> outputs \<Rightarrow> outputs option" where
  "emit inputPoints polyline vertex out =
     (case vertex of
        None \<Rightarrow> Some out
      | Some a \<Rightarrow> do {
          v \<leftarrow> nth_at (Vertices polyline) (int a);
          out' \<leftarrow> emit_vertex inputPoints v out;
          emit inputPoints polyline (next_v v) out'
        })"

text \<open>The point ids of the vertices that are left, in the order of the walk.\<close>

partial_function (option) remaining :: "Polyline \<Rightarrow> nat option \<Rightarrow> vtkIdType list option" where
  "remaining polyline vertex =
     (case vertex of
        None \<Rightarrow> Some []
      | Some a \<Rightarrow> do {
          v \<leftarrow> nth_at (Vertices polyline) (int a);
          ids \<leftarrow> remaining polyline (next_v v);
          Some (id_v v # ids)
        })"

text \<open>A slot is live when the walk from the first slot reaches it.\<close>

inductive live :: "Polyline \<Rightarrow> nat \<Rightarrow> bool" for polyline where
  live_first: "Vertices polyline \<noteq> [] \<Longrightarrow> live polyline 0"
| live_next: "live polyline a \<Longrightarrow> nth_at (Vertices polyline) (int a) = Some v \<Longrightarrow> next_v v = Some b \<Longrightarrow>
     live polyline b"

text \<open>One pass of the loop over the line cells.\<close>

definition process_cell :: "vtkPolyData \<Rightarrow> vtkDecimatePolylineFilter \<Rightarrow> vtkIdType \<Rightarrow> vtkPriorityQueue
    \<Rightarrow> outputs \<Rightarrow> vtkIdType list \<Rightarrow> (vtkPriorityQueue \<times> outputs) option" where
  "process_cell input this firstVertexIndex q out polyLineVerts = do {
     (polyline, q', currentNumPts) \<leftarrow> decimate input this q polyLineVerts;
     let (newId, cells) = InsertNextCell currentNumPts (newLines out);
     let out1 = out\<lparr>newLines := cells, outCD := outCD out @ [(firstVertexIndex, newId)]\<rparr>;
     inputPoints \<leftarrow> Points input;
     out2 \<leftarrow> emit inputPoints polyline (Some 0) out1;
     Some (Reset q', out2)
   }"

text \<open>The loop over the line cells. \<open>CheckAbort\<close> belongs to the pipeline; its answer at the
  k-th pass is a parameter.\<close>

fun line_loop :: "vtkPolyData \<Rightarrow> vtkDecimatePolylineFilter \<Rightarrow> (nat \<Rightarrow> bool) \<Rightarrow> nat \<Rightarrow> vtkIdType list list
    \<Rightarrow> vtkIdType \<Rightarrow> vtkPriorityQueue \<Rightarrow> outputs \<Rightarrow> (vtkPriorityQueue \<times> outputs) option" where
  "line_loop input this CheckAbort k [] firstVertexIndex q out = Some (q, out)"
| "line_loop input this CheckAbort k (polyLineVerts # rest) firstVertexIndex q out =
     (if CheckAbort k then Some (q, out)
      else
        (case process_cell input this firstVertexIndex q out polyLineVerts of
           None \<Rightarrow> None
         | Some (q', out') \<Rightarrow>
             line_loop input this CheckAbort (Suc k) rest
               (firstVertexIndex + int (length polyLineVerts)) q' out'))"

definition never_abort :: "nat \<Rightarrow> bool" where
  "never_abort k = False"

definition RequestData :: "vtkDecimatePolylineFilter \<Rightarrow> (nat \<Rightarrow> bool) \<Rightarrow> vtkPolyData
    \<Rightarrow> (int \<times> vtkDecimatePolylineFilter \<times> outputs) option" where
  "RequestData this CheckAbort input =
     (case Lines input of
        None \<Rightarrow> Some (1, this, empty_output)
      | Some inputLines \<Rightarrow>
          (case Points input of
             None \<Rightarrow> Some (1, this, empty_output)
           | Some inputPoints \<Rightarrow>
               if int (length inputLines) < 1 \<or> int (length inputPoints) < 1
               then Some (1, this, empty_output)
               else
                 (case line_loop input this CheckAbort 0 inputLines 0 (PriorityQueue this) empty_output of
                    None \<Rightarrow> None
                  | Some (q, out) \<Rightarrow> Some (1, this\<lparr>PriorityQueue := q\<rparr>, out))))"

text \<open>The point ids left of one polyline after its reduction.\<close>

definition survivors :: "vtkPolyData \<Rightarrow> vtkDecimatePolylineFilter \<Rightarrow> vtkIdType list \<Rightarrow> vtkIdType list option" where
  "survivors input this polyLineVerts =
     (case decimate input this [] polyLineVerts of
        None \<Rightarrow> None
      | Some (polyline, q, currentNumPts) \<Rightarrow> remaining polyline (Some 0))"

subsection \<open>Well-formed input\<close>

text \<open>A line cell the filter can work on has at least one vertex (the constructor of
  \<open>Polyline\<close> writes to the slots 0 and size - 1), has slot numbers that fit the
  \<open>unsigned index\<close> field, and refers to points of the input.\<close>

definition wf_cell :: "point list \<Rightarrow> vtkIdType list \<Rightarrow> bool" where
  "wf_cell pts c \<longleftrightarrow> c \<noteq> [] \<and> length c \<le> 2 ^ 32 \<and> (\<forall>i \<in> set c. 0 \<le> i \<and> i < int (length pts))"

definition wf_input :: "vtkPolyData \<Rightarrow> bool" where
  "wf_input input \<longleftrightarrow>
     (case Lines input of None \<Rightarrow> True
      | Some inputLines \<Rightarrow>
          (case Points input of None \<Rightarrow> True
           | Some inputPoints \<Rightarrow> \<forall>c \<in> set inputLines. wf_cell inputPoints c))"

subsection \<open>Inputs of the worked runs\<close>

definition crossing_lines :: "vtkIdType list list" where
  "crossing_lines = [[0, 1, 2], [3, 1, 4]]"

definition collinear_points :: "point list" where
  "collinear_points = [(0, 0, 0), (1, 0, 0), (2, 0, 0), (3, 0, 0), (4, 0, 0)]"

definition collinear_input :: vtkPolyData where
  "collinear_input = \<lparr>Points = Some collinear_points, Lines = Some crossing_lines\<rparr>"



definition bent_points :: "point list" where
  "bent_points = [(0, 0, 0), (1, 1, 0), (2, 0, 0)]"

definition bent_cell :: "vtkIdType list" where
  "bent_cell = [0, 1, 2]"

definition bent_lines :: "vtkIdType list list" where
  "bent_lines = [[0, 1, 2]]"

definition bent_input :: vtkPolyData where
  "bent_input = \<lparr>Points = Some bent_points, Lines = Some bent_lines\<rparr>"

definition bent_polyline :: Polyline where
  "bent_polyline =
     \<lparr>Size = 3,
      Vertices =
        [\<lparr>index = 0, id_v = 0, prev = None, next_v = Some 1, removable = False\<rparr>,
         \<lparr>index = 1, id_v = 1, prev = Some 0, next_v = Some 2, removable = True\<rparr>,
         \<lparr>index = 2, id_v = 2, prev = Some 1, next_v = None, removable = False\<rparr>],
      IsLoop = False\<rparr>"

definition lossless_filter :: vtkDecimatePolylineFilter where
  "lossless_filter = new_vtkDecimatePolylineFilter\<lparr>TargetReduction := 0\<rparr>"

definition strict_filter :: vtkDecimatePolylineFilter where
  "strict_filter = new_vtkDecimatePolylineFilter\<lparr>MaximumError := 0\<rparr>"

subsection \<open>Invariants of the run\<close>

text \<open>Removing a slot leaves the array as it is but for two links: \<open>next\<close> of the
  slot before and \<open>prev\<close> of the slot after.\<close>

definition relink :: "Vertex list \<Rightarrow> nat \<Rightarrow> nat \<Rightarrow> Vertex list" where
  "relink vs p n = vs[p := (vs ! p)\<lparr>next_v := Some n\<rparr>, n := (vs ! n)\<lparr>prev := Some p\<rparr>]"

text \<open>The fields of a slot that never change: its number, its point id, and whether it is
  removable (every slot but the first and the last).\<close>

definition static :: "vtkIdType list \<Rightarrow> Vertex list \<Rightarrow> bool" where
  "static c vs \<longleftrightarrow> length vs = length c \<and>
     (\<forall>a < length c. index (vs ! a) = word_of_nat a \<and> id_v (vs ! a) = c ! a \<and>
        removable (vs ! a) = (0 < a \<and> Suc a < length c))"

text \<open>The doubly linked list: \<open>L\<close> lists the slots that are left, in order.\<close>

definition link :: "Vertex list \<Rightarrow> nat \<Rightarrow> nat \<Rightarrow> bool" where
  "link vs a b \<longleftrightarrow> next_v (vs ! a) = Some b \<and> prev (vs ! b) = Some a"

definition linked :: "Vertex list \<Rightarrow> nat list \<Rightarrow> bool" where
  "linked vs L \<longleftrightarrow> L \<noteq> [] \<and> distinct L \<and> (\<forall>a \<in> set L. a < length vs) \<and>
     prev (vs ! hd L) = None \<and> next_v (vs ! last L) = None \<and> successively (link vs) L"

text \<open>The value \<open>ComputeError\<close> returns for a slot with the point id \<open>i\<close> between
  neighbours with the point ids \<open>i1\<close> and \<open>i2\<close>.\<close>

definition vertex_error :: "point list \<Rightarrow> vtkIdType \<Rightarrow> vtkIdType \<Rightarrow> vtkIdType \<Rightarrow> real" where
  "vertex_error pts i1 i i2 =
     (if Distance2BetweenPoints (pts ! nat i1) (pts ! nat i2) = 0 then 0
      else DistanceToLine (pts ! nat i) (pts ! nat i1) (pts ! nat i2))"

text \<open>The queue holds each slot at most once, and only interior slots that are left; but for
  the ids in \<open>J\<close>, the priority of an entry is the current error of its slot, which
  does not exceed \<open>MaximumError\<close>.\<close>

definition qinv :: "vtkPolyData \<Rightarrow> vtkDecimatePolylineFilter \<Rightarrow> Polyline \<Rightarrow> nat list \<Rightarrow> vtkIdType set
    \<Rightarrow> vtkPriorityQueue \<Rightarrow> bool" where
  "qinv input this pl L J q \<longleftrightarrow> distinct (map snd q) \<and>
     (\<forall>(e, i) \<in> set q. (\<exists>a \<in> set L. i = int a \<and> a \<noteq> hd L \<and> a \<noteq> last L) \<and>
        (i \<notin> J \<longrightarrow> ComputeError input pl i = Some e \<and> e \<le> MaximumError this))"

text \<open>The invariant of the reduction loop.\<close>

definition loop_inv :: "vtkPolyData \<Rightarrow> vtkDecimatePolylineFilter \<Rightarrow> vtkIdType list \<Rightarrow> nat list
    \<Rightarrow> Polyline \<times> vtkPriorityQueue \<times> vtkIdType \<Rightarrow> bool" where
  "loop_inv input this c L s \<longleftrightarrow>
     (case s of (pl, q, cur) \<Rightarrow>
        static c (Vertices pl) \<and> linked (Vertices pl) L \<and> hd L = 0 \<and> last L = length c - 1 \<and>
        subseq L [0..<length c] \<and> Size pl = int (length L) \<and> cur = int (length L) \<and>
        IsLoop pl = (hd c = last c) \<and> qinv input this pl L {} q)"

text \<open>The least number of vertices the reduction leaves of \<open>m\<close>.\<close>

definition enough :: "vtkIdType list \<Rightarrow> nat \<Rightarrow> nat \<Rightarrow> bool" where
  "enough c m m' \<longleftrightarrow> (if hd c = last c then min 3 m \<le> m' else min 2 m \<le> m')"

text \<open>The walk of \<open>emit\<close> over a given list of vertices.\<close>

fun emit_all :: "point list \<Rightarrow> Vertex list \<Rightarrow> outputs \<Rightarrow> outputs option" where
  "emit_all pts [] out = Some out"
| "emit_all pts (v # vs) out = (case emit_vertex pts v out of None \<Rightarrow> None | Some out' \<Rightarrow> emit_all pts vs out')"

text \<open>The new points, the copies of the point attributes and the id map agree.\<close>

definition out_ok :: "point list \<Rightarrow> outputs \<Rightarrow> bool" where
  "out_ok pts out \<longleftrightarrow> pointIdMap out = map_of (outPD out) \<and> distinct (map fst (outPD out)) \<and>
     map snd (outPD out) = map int [0..<length (outPD out)] \<and>
     newPts out = map (\<lambda>x. pts ! nat (fst x)) (outPD out)"

text \<open>What one pass of the loop over the cells yields, and what the passes over a list of
  cells add up to.\<close>

definition cell_ok :: "vtkPolyData \<Rightarrow> vtkDecimatePolylineFilter \<Rightarrow> vtkIdType list \<Rightarrow> nat list
    \<Rightarrow> Polyline \<times> vtkPriorityQueue \<times> vtkIdType \<Rightarrow> bool" where
  "cell_ok input this c L s \<longleftrightarrow> decimate input this [] c = Some s \<and> loop_inv input this c L s \<and>
     enough c (length c) (length L) \<and> (TargetReduction this = 0 \<longrightarrow> L = [0..<length c]) \<and>
     remaining (fst s) (Some 0) = Some (map (\<lambda>a. c ! a) L)"

definition cell_out :: "vtkPolyData \<Rightarrow> vtkDecimatePolylineFilter \<Rightarrow> (vtkIdType \<rightharpoonup> vtkIdType) \<Rightarrow> vtkIdType list
    \<Rightarrow> vtkIdType \<times> vtkIdType list \<Rightarrow> bool" where
  "cell_out input this M c cell \<longleftrightarrow>
     (\<exists>L s. cell_ok input this c L s \<and> cell = (int (length L), map (\<lambda>a. the (M (c ! a))) L) \<and>
        (\<lambda>a. c ! a) ` set L \<subseteq> dom M)"

definition run_ok :: "vtkPolyData \<Rightarrow> vtkDecimatePolylineFilter \<Rightarrow> point list \<Rightarrow> vtkIdType list list
    \<Rightarrow> outputs \<Rightarrow> bool" where
  "run_ok input this pts seen out \<longleftrightarrow> out_ok pts out \<and>
     list_all2 (cell_out input this (pointIdMap out)) seen (newLines out) \<and>
     outCD out = map (\<lambda>k. (int (length (concat (take k seen))), int k)) [0..<length seen] \<and>
     dom (pointIdMap out) = (\<Union>c \<in> set seen. case survivors input this c of None \<Rightarrow> {} | Some ids \<Rightarrow> set ids)"

section \<open>Properties\<close>

lemma nth_at_Some [simp]: "a < length xs \<Longrightarrow> nth_at xs (int a) = Some (xs ! a)"
  by (simp add: nth_at_def)

lemma nth_at_eq_Some: "nth_at xs i = Some v \<longleftrightarrow> (0 \<le> i \<and> nat i < length xs \<and> v = xs ! nat i)"
  by (auto simp: nth_at_def)

lemma length_relink [simp]: "length (relink vs p n) = length vs"
  by (simp add: relink_def)

lemma relink_other: "a \<noteq> p \<Longrightarrow> a \<noteq> n \<Longrightarrow> relink vs p n ! a = vs ! a"
  by (simp add: relink_def)

lemma relink_fields:
  "a < length vs \<Longrightarrow> index (relink vs p n ! a) = index (vs ! a) \<and> id_v (relink vs p n ! a) = id_v (vs ! a)
     \<and> removable (relink vs p n ! a) = removable (vs ! a)"
  by (cases "p < length vs"; cases "n < length vs") (simp_all add: relink_def nth_list_update)

lemma relink_next: "p < length vs \<Longrightarrow> p \<noteq> n \<Longrightarrow> next_v (relink vs p n ! p) = Some n \<and> prev (relink vs p n ! p) = prev (vs ! p)"
  by (simp add: relink_def nth_list_update)

lemma relink_prev: "n < length vs \<Longrightarrow> prev (relink vs p n ! n) = Some p \<and> next_v (relink vs p n ! n) = next_v (vs ! n)"
  by (simp add: relink_def nth_list_update)

lemma Remove_relink:
  assumes "a < length (Vertices pl)" "prev (Vertices pl ! a) = Some p" "next_v (Vertices pl ! a) = Some n"
    "p < length (Vertices pl)" "n < length (Vertices pl)" "p \<noteq> a" "n \<noteq> a" "p \<noteq> n"
  shows "Remove pl (int a) = Some (pl\<lparr>Size := Size pl - 1, Vertices := relink (Vertices pl) p n\<rparr>)"
  using assms by (simp add: Remove_def relink_def Let_def nth_list_update)

lemma new_vertices_nth:
  assumes "a < n" "length c = n"
  shows "(map (new_Vertex c n) [0..<n])[n - 1 := v1, 0 := v2] ! a =
     (if a = 0 then v2 else if a = n - 1 then v1 else new_Vertex c n a)"
  using assms by (auto simp: nth_list_update)

lemma new_Polyline_Some:
  assumes "c \<noteq> []"
  shows "\<exists>pl. new_Polyline c = Some pl \<and> Size pl = int (length c) \<and> static c (Vertices pl)
     \<and> linked (Vertices pl) [0..<length c] \<and> IsLoop pl = (hd c = last c)"
proof -
  let ?n = "length c"
  let ?vs = "map (new_Vertex c ?n) [0..<?n]"
  let ?vs1 = "?vs[?n - 1 := (?vs ! (?n - 1))\<lparr>removable := False\<rparr>]"
  define vs2 where "vs2 = ?vs1[0 := (?vs1 ! 0)\<lparr>removable := False\<rparr>]"
  define pl where "pl = \<lparr>Size = int ?n, Vertices = vs2, IsLoop = (id_v (vs2 ! 0) = id_v (vs2 ! (?n - 1)))\<rparr>"
  from assms have n: "0 < ?n" by simp
  have i: "int ?n - 1 = int (?n - 1)" using assms by (cases c) simp_all
  have eq: "new_Polyline c = Some pl"
    using n by (simp add: new_Polyline_def Let_def nth_at_def i pl_def vs2_def del: of_nat_diff)
  have len: "length vs2 = ?n" by (simp add: vs2_def)
  have nth: "vs2 ! a = (new_Vertex c ?n a)\<lparr>removable := (0 < a \<and> Suc a < ?n)\<rparr>" if "a < ?n" for a
  proof -
    have a: "[0..<?n] ! a = a" "0 < ?n" "?n - 1 < ?n" using that assms by simp_all
    show ?thesis
    proof (cases "a = 0")
      case True
      then show ?thesis using a unfolding vs2_def by (cases "?n - 1 = 0") (simp_all add: nth_list_update)
    next
      case False
      then show ?thesis using a that unfolding vs2_def
        by (cases "a = ?n - 1") (auto simp: nth_list_update new_Vertex_def)
    qed
  qed
  have st: "static c vs2"
    unfolding static_def using nth len by (simp add: new_Vertex_def)
  have "link vs2 a (Suc a)" if "Suc a < ?n" for a
    using that nth [of a] nth [of "Suc a"] by (simp add: link_def new_Vertex_def)
  then have "successively (link vs2) [0..<?n]"
    unfolding successively_conv_nth by simp
  moreover have "prev (vs2 ! 0) = None" "next_v (vs2 ! (?n - 1)) = None"
    using n nth [of 0] nth [of "?n - 1"] by (simp_all add: new_Vertex_def)
  ultimately have li: "linked vs2 [0..<?n]"
    using n len by (simp add: linked_def hd_upt last_upt)
  have "IsLoop pl = (hd c = last c)"
    using n assms nth [of 0] nth [of "?n - 1"]
    by (simp add: pl_def new_Vertex_def hd_conv_nth last_conv_nth)
  with eq st li show ?thesis by (simp add: pl_def)
qed

lemma interior_split:
  assumes "a \<in> set L" "a \<noteq> hd L" "a \<noteq> last L"
  shows "\<exists>A p n B. L = A @ p # a # n # B"
proof -
  from assms(1) obtain xs ys where L: "L = xs @ a # ys" by (auto simp: in_set_conv_decomp)
  with assms(2) have "xs \<noteq> []" by (cases xs) auto
  then obtain A p where xs: "xs = A @ [p]" by (cases xs rule: rev_cases) auto
  from L assms(3) have "ys \<noteq> []" by auto
  then obtain n B where ys: "ys = n # B" by (cases ys) auto
  show ?thesis using L xs ys by auto
qed

lemma linked_split:
  assumes "linked vs (A @ p # a # n # B)"
  shows "prev (vs ! a) = Some p" "next_v (vs ! a) = Some n" "next_v (vs ! p) = Some a" "prev (vs ! n) = Some a"
    "p < length vs" "a < length vs" "n < length vs" "p \<noteq> a" "n \<noteq> a" "p \<noteq> n"
    "a \<notin> set A" "a \<notin> set B" "p \<notin> set A" "p \<notin> set B" "n \<notin> set A" "n \<notin> set B"
  using assms by (auto simp: linked_def successively_append_iff link_def)

lemma ComputeError_eq:
  assumes "Points input = Some pts" "a < length (Vertices pl)"
    "prev (Vertices pl ! a) = Some p" "next_v (Vertices pl ! a) = Some n"
    "p < length (Vertices pl)" "n < length (Vertices pl)"
    "\<forall>b < length (Vertices pl). 0 \<le> id_v (Vertices pl ! b) \<and> id_v (Vertices pl ! b) < int (length pts)"
  shows "ComputeError input pl (int a) =
     Some (vertex_error pts (id_v (Vertices pl ! p)) (id_v (Vertices pl ! a)) (id_v (Vertices pl ! n)))"
  using assms by (simp add: ComputeError_def deref_def GetPoint_def nth_at_def vertex_error_def)

lemma ComputeError_cong:
  assumes "length (Vertices pl') = length (Vertices pl)"
    "prev (Vertices pl' ! b) = prev (Vertices pl ! b)" "next_v (Vertices pl' ! b) = next_v (Vertices pl ! b)"
    "\<forall>x < length (Vertices pl). id_v (Vertices pl' ! x) = id_v (Vertices pl ! x)"
  shows "ComputeError input pl' (int b) = ComputeError input pl (int b)"
  using assms
  by (auto simp: ComputeError_def deref_def GetPoint_def nth_at_def split: option.splits Option.bind_splits)

lemma distinct_snd_insort:
  "distinct (map snd (insort_key fst x q)) \<longleftrightarrow> snd x \<notin> snd ` set q \<and> distinct (map snd q)"
  by (induction q) (auto simp: set_insort_key)

lemma set_enqueue: "set (enqueue this e i q) \<subseteq> insert (e, i) (set q)"
  by (auto simp: enqueue_def Insert_def set_insort_key)

lemma enqueue_new: "(e', i') \<in> set (enqueue this e i q) \<Longrightarrow> (e', i') \<notin> set q \<Longrightarrow> e' = e \<and> i' = i \<and> e \<le> MaximumError this"
  by (auto simp: enqueue_def Insert_def set_insort_key split: if_splits)

lemma distinct_enqueue: "distinct (map snd q) \<Longrightarrow> i \<notin> snd ` set q \<Longrightarrow> distinct (map snd (enqueue this e i q))"
  by (simp add: enqueue_def Insert_def distinct_snd_insort)

lemma qinv_enqueue:
  assumes "qinv input this pl L J q" "i \<notin> snd ` set q" "a \<in> set L" "a \<noteq> hd L" "a \<noteq> last L" "i = int a"
    "ComputeError input pl i = Some e"
  shows "qinv input this pl L J (enqueue this e i q)"
  unfolding qinv_def
proof (intro conjI ballI)
  show "distinct (map snd (enqueue this e i q))"
    using assms(1,2) by (simp add: distinct_enqueue qinv_def)
next
  fix x assume x: "x \<in> set (enqueue this e i q)"
  show "case x of (e', i') \<Rightarrow> (\<exists>a\<in>set L. i' = int a \<and> a \<noteq> hd L \<and> a \<noteq> last L) \<and>
            (i' \<notin> J \<longrightarrow> ComputeError input pl i' = Some e' \<and> e' \<le> MaximumError this)"
  proof (cases "x \<in> set q")
    case True
    then show ?thesis using assms(1) by (auto simp: qinv_def)
  next
    case False
    obtain e' i' where "x = (e', i')" by (cases x)
    with x False enqueue_new have "e' = e \<and> i' = i \<and> e \<le> MaximumError this" by blast
    then show ?thesis using assms \<open>x = (e', i')\<close> by auto
  qed
qed

lemma qinv_DeleteId:
  assumes "qinv input this pl L J q"
  shows "qinv input this pl L (J - {i}) (DeleteId i q)" "i \<notin> snd ` set (DeleteId i q)"
  using assms by (auto simp: qinv_def DeleteId_def distinct_map_filter)

lemma requeue_qinv:
  assumes "qinv input this pl L J q" "b \<in> set L"
    "removable v \<longleftrightarrow> b \<noteq> hd L \<and> b \<noteq> last L"
    "removable v \<longrightarrow> (\<exists>e. ComputeError input pl (int b) = Some e)"
  shows "\<exists>q'. requeue input this pl v (int b) q = Some q' \<and> qinv input this pl L (J - {int b}) q'"
proof (cases "removable v")
  case True
  with assms(4) obtain e where e: "ComputeError input pl (int b) = Some e" by auto
  have "qinv input this pl L (J - {int b}) (enqueue this e (int b) (DeleteId (int b) q))"
    using qinv_DeleteId [OF assms(1), of "int b"] assms(2,3) True e
    by (intro qinv_enqueue [where a = b]) auto
  then show ?thesis using True e by (simp add: requeue_def)
next
  case False
  then have "qinv input this pl L (J - {int b}) q"
    using assms(1,3) by (fastforce simp: qinv_def)
  then show ?thesis using False by (simp add: requeue_def)
qed

lemma static_relink: "static c vs \<Longrightarrow> static c (relink vs p n)"
  by (simp add: static_def relink_fields)

lemma link_relink_left:
  assumes "link vs x y" "x \<noteq> p" "x \<noteq> n" "y \<noteq> n" "p < length vs" "p \<noteq> n"
  shows "link (relink vs p n) x y"
  using assms relink_next [of p vs n] by (cases "y = p") (simp_all add: link_def relink_other)

lemma link_relink_right:
  assumes "link vs x y" "x \<noteq> p" "y \<noteq> p" "y \<noteq> n" "n < length vs"
  shows "link (relink vs p n) x y"
  using assms relink_prev [of n vs p] by (cases "x = n") (simp_all add: link_def relink_other)

lemma linked_relink:
  assumes "linked vs (A @ p # a # n # B)"
  shows "linked (relink vs p n) (A @ p # n # B)"
proof -
  note s = linked_split [OF assms]
  let ?vs = "relink vs p n"
  from assms have L: "distinct (A @ p # a # n # B)" "\<forall>x\<in>set (A @ p # a # n # B). x < length vs"
    and hd: "prev (vs ! hd (A @ p # a # n # B)) = None" and lst: "next_v (vs ! last (A @ p # a # n # B)) = None"
    and suc: "successively (link vs) (A @ p # a # n # B)"
    by (simp_all add: linked_def)
  have 1: "prev (?vs ! hd (A @ p # n # B)) = None"
  proof (cases A)
    case Nil
    then show ?thesis using hd relink_next [of p vs n] s by simp
  next
    case (Cons x xs)
    then have "x \<noteq> p" "x \<noteq> n" using s by auto
    then show ?thesis using hd Cons by (simp add: relink_other)
  qed
  have 2: "next_v (?vs ! last (A @ p # n # B)) = None"
  proof (cases B rule: rev_cases)
    case Nil
    then show ?thesis using lst relink_prev [of n vs p] s by simp
  next
    case (snoc xs x)
    then have "x \<noteq> p" "x \<noteq> n" using s by auto
    then show ?thesis using lst snoc by (simp add: relink_other)
  qed
  from suc have sA: "successively (link vs) (A @ [p])" and sB: "successively (link vs) (n # B)"
    by (simp_all add: successively_append_iff successively_Cons split: list.splits)
  have "successively (link ?vs) (A @ [p])"
  proof (rule successively_mono [OF sA])
    fix x y assume xy: "x \<in> set (A @ [p])" "y \<in> set (A @ [p])" "link vs x y"
    have "x \<noteq> p" using xy s by (auto simp: link_def)
    moreover have "x \<noteq> n" "y \<noteq> n" using xy s by auto
    ultimately show "link ?vs x y" using xy s by (intro link_relink_left) auto
  qed
  moreover have "successively (link ?vs) (n # B)"
  proof (rule successively_mono [OF sB])
    fix x y assume xy: "x \<in> set (n # B)" "y \<in> set (n # B)" "link vs x y"
    have "y \<noteq> n" using xy s by (auto simp: link_def)
    moreover have "x \<noteq> p" "y \<noteq> p" using xy s by auto
    ultimately show "link ?vs x y" using xy s by (intro link_relink_right) auto
  qed
  moreover have "link ?vs p n"
    using relink_next [of p vs n] relink_prev [of n vs p] s by (simp add: link_def)
  ultimately have 3: "successively (link ?vs) (A @ p # n # B)"
    by (simp add: successively_append_iff successively_Cons)
  show ?thesis
    unfolding linked_def using L 1 2 3 by auto
qed

lemma uint_index: "p < 2 ^ 32 \<Longrightarrow> uint (word_of_nat p :: 32 word) = int p"
  by (simp add: uint_nat unat_of_nat)

lemma static_ids:
  assumes "wf_cell pts c" "static c vs"
  shows "\<forall>b < length vs. 0 \<le> id_v (vs ! b) \<and> id_v (vs ! b) < int (length pts)"
  using assms by (auto simp: wf_cell_def static_def)

lemma ComputeError_interior:
  assumes "wf_cell pts c" "Points input = Some pts" "static c (Vertices pl)" "linked (Vertices pl) L"
    "a \<in> set L" "a \<noteq> hd L" "a \<noteq> last L"
  shows "\<exists>e. ComputeError input pl (int a) = Some e"
proof -
  from interior_split [OF assms(5-7)] obtain A p n B where L: "L = A @ p # a # n # B" by blast
  note s = linked_split [OF assms(4) [unfolded L]]
  show ?thesis
    using ComputeError_eq [OF assms(2) s(6) s(1) s(2) s(5) s(7) static_ids [OF assms(1,3)]] by blast
qed

lemma remove_popped_inv:
  assumes wf: "wf_cell pts c" "Points input = Some pts"
    and inv: "loop_inv input this c L (pl, q, cur)"
    and pop: "Pop q = (i, q0)" "\<not> i < 0"
  shows "\<exists>a A p n B pl' q' e. L = A @ p # a # n # B \<and> i = int a \<and> q = (e, i) # q0 \<and>
     ComputeError input pl i = Some e \<and> e \<le> MaximumError this \<and>
     removable (Vertices pl ! a) \<and> prev (Vertices pl ! a) = Some p \<and> next_v (Vertices pl ! a) = Some n \<and>
     remove_popped input this pl q0 i = Some (pl', q') \<and>
     loop_inv input this c (A @ p # n # B) (pl', q', cur - 1)"
proof -
  let ?vs = "Vertices pl"
  from inv have st: "static c ?vs" and li: "linked ?vs L" and hd: "hd L = 0" and lst: "last L = length c - 1"
    and sub: "subseq L [0..<length c]" and sz: "Size pl = int (length L)" "cur = int (length L)"
    and lp: "IsLoop pl = (hd c = last c)" and q: "qinv input this pl L {} q"
    by (simp_all add: loop_inv_def)
  from pop obtain e where qe: "q = (e, i) # q0"
    by (cases q) (auto simp: Pop_def)
  with q obtain a where a: "a \<in> set L" "i = int a" "a \<noteq> hd L" "a \<noteq> last L"
    and e: "ComputeError input pl i = Some e" "e \<le> MaximumError this"
    by (auto simp: qinv_def)
  from interior_split [OF a(1,3,4)] obtain A p n B where L: "L = A @ p # a # n # B" by blast
  note s = linked_split [OF li [unfolded L]]
  let ?L' = "A @ p # n # B"
  define pl' where "pl' = pl\<lparr>Size := Size pl - 1, Vertices := relink ?vs p n\<rparr>"
  let ?vs' = "Vertices pl'"
  have vs': "?vs' = relink ?vs p n" by (simp add: pl'_def)
  have len: "length ?vs = length c" using st by (simp add: static_def)
  have rem: "Remove pl i = Some pl'"
    unfolding a(2) pl'_def using s by (intro Remove_relink) auto
  have st': "static c ?vs'" using st by (simp add: vs' static_relink)
  have li': "linked ?vs' ?L'" using li unfolding L vs' by (rule linked_relink)
  have hd': "hd ?L' = hd L" "last ?L' = last L" by (simp_all add: L hd_append)
  have sub': "subseq ?L' [0..<length c]"
  proof -
    have "subseq ?L' L" using s(9) by (simp add: L subseq_append')
    then show ?thesis using sub by (rule subseq_order.order_trans)
  qed
  have bound: "x < 2 ^ 32" if "x < length c" for x
    using that wf(1) by (simp add: wf_cell_def)
  have rmv: "removable (?vs' ! b) \<longleftrightarrow> b \<noteq> hd ?L' \<and> b \<noteq> last ?L'" if "b < length c" for b
    using st' that hd lst hd' by (auto simp: static_def)
  have idx: "uint (index (?vs' ! b)) = int b" if "b < length c" for b
    using st' that bound by (simp add: static_def uint_index)
  have ce_same: "ComputeError input pl' (int b) = ComputeError input pl (int b)" if "b \<noteq> p" "b \<noteq> n" for b
    using that len by (intro ComputeError_cong) (simp_all add: vs' relink_other relink_fields)
  have q0: "qinv input this pl' ?L' {int p, int n} q0"
    unfolding qinv_def
  proof (intro conjI ballI)
    show "distinct (map snd q0)" using q qe by (simp add: qinv_def)
  next
    fix x assume x: "x \<in> set q0"
    obtain e' i' where xe: "x = (e', i')" by (cases x)
    from q qe x xe have "i' \<noteq> i" by (force simp: qinv_def)
    moreover from q qe x xe obtain b where b: "b \<in> set L" "i' = int b" "b \<noteq> hd L" "b \<noteq> last L"
      and e': "ComputeError input pl i' = Some e' \<and> e' \<le> MaximumError this"
      by (auto simp: qinv_def)
    ultimately have "b \<in> set ?L'" using a(2) by (auto simp: L)
    then show "case x of (e', i') \<Rightarrow> (\<exists>a\<in>set ?L'. i' = int a \<and> a \<noteq> hd ?L' \<and> a \<noteq> last ?L') \<and>
            (i' \<notin> {int p, int n} \<longrightarrow> ComputeError input pl' i' = Some e' \<and> e' \<le> MaximumError this)"
      using b e' xe hd' ce_same [of b] by auto
  qed
  have va: "?vs' ! a = ?vs ! a" using s by (simp add: vs' relink_other)
  have pn: "p < length c" "n < length c" "a < length c" using s len by simp_all
  have cep: "removable (?vs' ! p) \<longrightarrow> (\<exists>e. ComputeError input pl' (int p) = Some e)"
    using rmv [OF pn(1)] by (auto intro!: ComputeError_interior [OF wf st' li'])
  have cen: "removable (?vs' ! n) \<longrightarrow> (\<exists>e. ComputeError input pl' (int n) = Some e)"
    using rmv [OF pn(2)] by (auto intro!: ComputeError_interior [OF wf st' li'])
  from requeue_qinv [OF q0 _ rmv [OF pn(1)] cep]
  obtain q1 where q1: "requeue input this pl' (?vs' ! p) (int p) q0 = Some q1"
    "qinv input this pl' ?L' ({int p, int n} - {int p}) q1" by auto
  from requeue_qinv [OF q1(2) _ rmv [OF pn(2)] cen]
  obtain q2 where q2: "requeue input this pl' (?vs' ! n) (int n) q1 = Some q2"
    "qinv input this pl' ?L' ({int p, int n} - {int p} - {int n}) q2" by auto
  have "{int p, int n} - {int p} - {int n} = ({}::int set)" by auto
  with q2(2) have q2': "qinv input this pl' ?L' {} q2" by (simp only:)
  have len': "length ?vs' = length c" using len by (simp add: vs')
  have rp: "remove_popped input this pl q0 i = Some (pl', q2)"
    using rem s(1,2) pn len' q1(1) q2(1) idx [OF pn(1)] idx [OF pn(2)]
    by (simp add: remove_popped_def a(2) va deref_def Let_def)
  have "loop_inv input this c ?L' (pl', q2, cur - 1)"
    unfolding loop_inv_def using st' li' hd lst hd' sub' sz lp q2' by (simp add: L pl'_def)
  moreover have "removable (?vs ! a)"
    using st pn a hd lst by (auto simp: static_def)
  ultimately show ?thesis
    using L a(2) qe e s(1,2) rp by blast
qed

lemma subseq_drop_one: "subseq (A @ p # n # B) (A @ p # a # n # B)"
  by (auto simp: subseq_append')

lemma seed_qinv:
  assumes wf: "wf_cell pts c" "Points input = Some pts"
    and st: "static c (Vertices pl)" and li: "linked (Vertices pl) [0..<length c]"
    and sz: "Size pl = int (length c)"
  shows "k \<le> length c \<Longrightarrow> qinv input this pl [0..<length c] {} q \<Longrightarrow> \<forall>x \<in> set q. snd x < int k \<Longrightarrow>
     \<exists>q'. seed input this pl (int k) q = Some q' \<and> qinv input this pl [0..<length c] {} q'"
proof (induction "length c - k" arbitrary: k q)
  case 0
  then have "k = length c" by simp
  then show ?case using 0 sz by (simp add: seed.simps)
next
  case (Suc d)
  let ?L = "[0..<length c]"
  from Suc have k: "k < length c" by simp
  then have kL: "k \<in> set ?L" by simp
  have len: "length (Vertices pl) = length c" using st by (simp add: static_def)
  have "0 < length c" using k by (cases c) simp_all
  then have hl: "hd ?L = 0" "last ?L = length c - 1" by simp_all
  have rmv: "removable (Vertices pl ! k) \<longleftrightarrow> k \<noteq> hd ?L \<and> k \<noteq> last ?L"
    using st k hl by (auto simp: static_def)
  have step: "int k + 1 = int (Suc k)" by simp
  have d: "d = length c - Suc k" "Suc k \<le> length c" using Suc by simp_all
  show ?case
  proof (cases "removable (Vertices pl ! k)")
    case True
    with rmv ComputeError_interior [OF wf st li kL] obtain e
      where e: "ComputeError input pl (int k) = Some e" by auto
    have "int k \<notin> snd ` set q" using Suc.prems(3) by auto
    then have 1: "qinv input this pl ?L {} (enqueue this e (int k) q)"
      using Suc.prems(2) kL rmv True e by (intro qinv_enqueue [where a = k]) auto
    have 2: "\<forall>x \<in> set (enqueue this e (int k) q). snd x < int (Suc k)"
      using Suc.prems(3) set_enqueue [of this e "int k" q] by fastforce
    from Suc.hyps(1) [OF d 1 2] show ?thesis
      using k sz len True e by (subst seed.simps) (simp add: step del: of_nat_Suc)
  next
    case False
    have 2: "\<forall>x \<in> set q. snd x < int (Suc k)" using Suc.prems(3) by fastforce
    from Suc.hyps(1) [OF d Suc.prems(2) 2] show ?thesis
      using k sz len False by (subst seed.simps) (simp add: step del: of_nat_Suc)
  qed
qed

lemma start_state_inv:
  assumes wf: "wf_cell pts c" "Points input = Some pts"
  shows "\<exists>s. start_state input this [] c = Some s \<and> loop_inv input this c [0..<length c] s"
proof -
  from wf have ne: "c \<noteq> []" by (simp add: wf_cell_def)
  from new_Polyline_Some [OF ne] obtain pl where pl: "new_Polyline c = Some pl" "Size pl = int (length c)"
    "static c (Vertices pl)" "linked (Vertices pl) [0..<length c]" "IsLoop pl = (hd c = last c)"
    by blast
  have "qinv input this pl [0..<length c] {} []" by (simp add: qinv_def)
  from seed_qinv [OF wf pl(3,4,2) _ this, where k = 0] obtain q where
    q: "seed input this pl 0 [] = Some q" "qinv input this pl [0..<length c] {} q" by auto
  have "loop_inv input this c [0..<length c] (pl, q, int (length c))"
    using pl q ne by (simp add: loop_inv_def)
  then show ?thesis using pl(1) q(1) by (simp add: start_state_def)
qed

lemma Pop_empty:
  assumes "qinv input this pl L J q" "Pop q = (i, q0)" "i < 0"
  shows "q = []" "q0 = []"
  using assms by (cases q; auto simp: Pop_def qinv_def)+

lemma reduce_inv:
  assumes wf: "wf_cell pts c" "Points input = Some pts"
  shows "loop_inv input this c L (pl, q, cur) \<Longrightarrow>
     \<exists>pl' q' L'. reduce input this polylineSize pl q cur = Some (pl', q', int (length L')) \<and>
       loop_inv input this c L' (pl', q', int (length L')) \<and> subseq L' L \<and> enough c (length L) (length L')"
proof (induction "length L" arbitrary: L pl q cur rule: less_induct)
  case less
  note inv = less.prems
  from inv have cur: "cur = int (length L)" and lp: "IsLoop pl = (hd c = last c)"
    and q: "qinv input this pl L {} q"
    by (simp_all add: loop_inv_def)
  show ?case
  proof (cases "reducing this pl polylineSize cur")
    case False
    then have "reduce input this polylineSize pl q cur = Some (pl, q, int (length L))"
      by (subst reduce.simps) (simp add: cur)
    then show ?thesis using inv cur by (auto simp: enough_def)
  next
    case True
    obtain i q0 where pop: "Pop q = (i, q0)" by (cases "Pop q")
    show ?thesis
    proof (cases "i < 0")
      case neg: True
      with Pop_empty [OF q pop] have "q = []" "q0 = []" by simp_all
      then have "reduce input this polylineSize pl q cur = Some (pl, q, int (length L))"
        using True pop neg by (subst reduce.simps) (simp add: cur)
      then show ?thesis using inv cur by (auto simp: enough_def)
    next
      case nonneg: False
      from remove_popped_inv [OF wf inv pop nonneg] obtain a A p n B pl' q' where
        L: "L = A @ p # a # n # B" and rp: "remove_popped input this pl q0 i = Some (pl', q')"
        and inv': "loop_inv input this c (A @ p # n # B) (pl', q', cur - 1)"
        by blast
      let ?L' = "A @ p # n # B"
      have shorter: "length ?L' < length L" by (simp add: L)
      from less.hyps [OF shorter inv'] obtain pl'' q'' L'' where
        r: "reduce input this polylineSize pl' q' (cur - 1) = Some (pl'', q'', int (length L''))"
        and inv'': "loop_inv input this c L'' (pl'', q'', int (length L''))"
        and sub: "subseq L'' ?L'" and en: "enough c (length ?L') (length L'')"
        by blast
      have "subseq ?L' L" unfolding L by (rule subseq_drop_one)
      with sub have sub': "subseq L'' L" by (rule subseq_order.order_trans)
      have en': "enough c (length L) (length L'')"
        using en True lp cur by (auto simp: enough_def reducing_def L split: if_splits)
      have "reduce input this polylineSize pl q cur = Some (pl'', q'', int (length L''))"
        using True pop nonneg rp r by (subst reduce.simps) simp
      then show ?thesis using inv'' sub' en' by blast
    qed
  qed
qed

lemma reduce_no_target:
  assumes "TargetReduction this = 0"
  shows "reduce input this polylineSize pl q polylineSize = Some (pl, q, polylineSize)"
  using assms by (subst reduce.simps) (simp add: reducing_def)

lemma visits_inv:
  assumes wf: "wf_cell pts c" "Points input = Some pts"
    and v: "visits input this polylineSize s0 s" and inv: "loop_inv input this c L0 s0"
  shows "\<exists>L. loop_inv input this c L s \<and> subseq L L0"
  using v
proof (induction rule: visits.induct)
  case visits_start
  then show ?case using inv by auto
next
  case (visits_step pl q cur i q0 pl' q')
  then obtain L where L: "loop_inv input this c L (pl, q, cur)" "subseq L L0" by blast
  from remove_popped_inv [OF wf L(1) visits_step(3,4)] obtain a A p n B pl'' q'' where
    L': "L = A @ p # a # n # B" and rp: "remove_popped input this pl q0 i = Some (pl'', q'')"
    and inv': "loop_inv input this c (A @ p # n # B) (pl'', q'', cur - 1)"
    by blast
  have "subseq (A @ p # n # B) L" unfolding L' by (rule subseq_drop_one)
  with L(2) have "subseq (A @ p # n # B) L0" using subseq_order.order_trans by blast
  with rp inv' visits_step(5) show ?case by auto
qed


lemma remaining_walk:
  assumes "Vertices pl = vs"
  shows "successively (link vs) (x # xs) \<Longrightarrow> \<forall>a \<in> set (x # xs). a < length vs \<Longrightarrow>
     next_v (vs ! last (x # xs)) = None \<Longrightarrow>
     remaining pl (Some x) = Some (map (\<lambda>a. id_v (vs ! a)) (x # xs))"
proof (induction xs arbitrary: x)
  case Nil
  then show ?case using assms by (simp add: remaining.simps)
next
  case (Cons y ys)
  then have "remaining pl (Some y) = Some (map (\<lambda>a. id_v (vs ! a)) (y # ys))"
    by (intro Cons.IH) simp_all
  moreover have "next_v (vs ! x) = Some y" using Cons.prems(1) by (simp add: link_def)
  ultimately show ?case using assms Cons.prems(2) by (subst remaining.simps) simp
qed

lemma emit_walk:
  assumes "Vertices pl = vs"
  shows "successively (link vs) (x # xs) \<Longrightarrow> \<forall>a \<in> set (x # xs). a < length vs \<Longrightarrow>
     next_v (vs ! last (x # xs)) = None \<Longrightarrow>
     emit pts pl (Some x) out = emit_all pts (map (\<lambda>a. vs ! a) (x # xs)) out"
proof (induction xs arbitrary: x out)
  case Nil
  then show ?case using assms by (simp add: emit.simps split: option.splits)
next
  case (Cons y ys)
  have IH: "emit pts pl (Some y) out' = emit_all pts (map (\<lambda>a. vs ! a) (y # ys)) out'" for out'
    using Cons.prems by (intro Cons.IH) simp_all
  have "next_v (vs ! x) = Some y" using Cons.prems(1) by (simp add: link_def)
  then show ?case using assms Cons.prems(2) IH
    by (subst emit.simps) (simp split: option.splits)
qed

lemma live_linked:
  assumes "linked (Vertices pl) L" "hd L = 0"
  shows "a \<in> set L \<Longrightarrow> live pl a"
proof -
  have "\<forall>x ys. L = xs @ x # ys \<longrightarrow> live pl x" for xs
  proof (induction xs rule: rev_induct)
    case Nil
    show ?case using assms by (auto simp: linked_def intro: live_first)
  next
    case (snoc w ws)
    show ?case
    proof (intro allI impI)
      fix x ys assume L: "L = (ws @ [w]) @ x # ys"
      then have "live pl w" using snoc by simp
      moreover from assms(1) L have "next_v (Vertices pl ! w) = Some x" "w < length (Vertices pl)"
        by (auto simp: linked_def successively_append_iff link_def)
      ultimately show "live pl x" by (auto intro: live_next [where a = w])
    qed
  qed
  moreover assume "a \<in> set L"
  ultimately show ?thesis by (auto simp: in_set_conv_decomp)
qed

lemma InsertCellPoint_last [simp]: "InsertCellPoint i (ls @ [(n, acc)]) = ls @ [(n, acc @ [i])]"
  by (simp add: InsertCellPoint_def)

lemma map_of_snoc: "k \<notin> fst ` set xs \<Longrightarrow> map_of (xs @ [(k, v)]) = (map_of xs)(k \<mapsto> v)"
  by (induction xs) (auto simp: fun_upd_twist)

lemma emit_vertex_ok:
  assumes "out_ok pts out" "0 \<le> id_v v" "id_v v < int (length pts)" "newLines out = ls @ [(n, acc)]"
  shows "\<exists>out'. emit_vertex pts v out = Some out' \<and> out_ok pts out' \<and>
     newLines out' = ls @ [(n, acc @ [the (pointIdMap out' (id_v v))])] \<and>
     pointIdMap out \<subseteq>\<^sub>m pointIdMap out' \<and> dom (pointIdMap out') = insert (id_v v) (dom (pointIdMap out)) \<and>
     outCD out' = outCD out"
proof (cases "pointIdMap out (id_v v)")
  case None
  let ?new = "int (length (newPts out))"
  let ?out = "out\<lparr>newPts := newPts out @ [pts ! nat (id_v v)], newLines := ls @ [(n, acc @ [?new])],
    outPD := outPD out @ [(id_v v, ?new)], pointIdMap := (pointIdMap out)(id_v v \<mapsto> ?new)\<rparr>"
  have e: "emit_vertex pts v out = Some ?out"
    using None assms by (simp add: emit_vertex_def GetPoint_def nth_at_def Let_def)
  from None assms(1) have notin: "id_v v \<notin> fst ` set (outPD out)"
    by (simp add: out_ok_def map_of_eq_None_iff)
  have len: "length (newPts out) = length (outPD out)" using assms(1) by (simp add: out_ok_def)
  have "out_ok pts ?out"
    using assms(1) notin len by (simp add: out_ok_def map_of_snoc del: map_of_append)
  moreover have "pointIdMap out \<subseteq>\<^sub>m pointIdMap ?out"
    using None by (auto simp: map_le_def)
  ultimately show ?thesis using e by auto
next
  case (Some second)
  let ?out = "out\<lparr>newLines := ls @ [(n, acc @ [second])]\<rparr>"
  have "emit_vertex pts v out = Some ?out"
    using Some assms by (simp add: emit_vertex_def)
  moreover have "out_ok pts ?out" using assms(1) by (simp add: out_ok_def)
  moreover have "insert (id_v v) (dom (pointIdMap out)) = dom (pointIdMap out)" using Some by auto
  ultimately show ?thesis using Some by auto
qed

lemma emit_all_ok:
  "out_ok pts out \<Longrightarrow> \<forall>v \<in> set vs. 0 \<le> id_v v \<and> id_v v < int (length pts) \<Longrightarrow>
   newLines out = ls @ [(n, acc)] \<Longrightarrow>
   \<exists>out'. emit_all pts vs out = Some out' \<and> out_ok pts out' \<and>
     newLines out' = ls @ [(n, acc @ map (\<lambda>v. the (pointIdMap out' (id_v v))) vs)] \<and>
     pointIdMap out \<subseteq>\<^sub>m pointIdMap out' \<and> dom (pointIdMap out') = dom (pointIdMap out) \<union> id_v ` set vs \<and>
     outCD out' = outCD out"
proof (induction vs arbitrary: out acc)
  case Nil
  then show ?case by simp
next
  case (Cons v vs)
  from emit_vertex_ok [OF Cons.prems(1) _ _ Cons.prems(3), of v] Cons.prems(2)
  obtain out1 where o1: "emit_vertex pts v out = Some out1" "out_ok pts out1"
    "newLines out1 = ls @ [(n, acc @ [the (pointIdMap out1 (id_v v))])]"
    "pointIdMap out \<subseteq>\<^sub>m pointIdMap out1" "dom (pointIdMap out1) = insert (id_v v) (dom (pointIdMap out))"
    "outCD out1 = outCD out"
    by auto
  from Cons.IH [OF o1(2) _ o1(3)] Cons.prems(2)
  obtain out' where o': "emit_all pts vs out1 = Some out'" "out_ok pts out'"
    "newLines out' = ls @ [(n, (acc @ [the (pointIdMap out1 (id_v v))]) @ map (\<lambda>v. the (pointIdMap out' (id_v v))) vs)]"
    "pointIdMap out1 \<subseteq>\<^sub>m pointIdMap out'" "dom (pointIdMap out') = dom (pointIdMap out1) \<union> id_v ` set vs"
    "outCD out' = outCD out1"
    by auto
  have "id_v v \<in> dom (pointIdMap out1)" using o1(5) by simp
  with o'(4) have "pointIdMap out' (id_v v) = pointIdMap out1 (id_v v)"
    by (simp add: map_le_def)
  moreover have "pointIdMap out \<subseteq>\<^sub>m pointIdMap out'" using o1(4) o'(4) by (rule map_le_trans)
  ultimately show ?case using o1 o' by auto
qed

lemma inv_remaining:
  assumes "loop_inv input this c L (pl, q, cur)"
  shows "remaining pl (Some 0) = Some (map (\<lambda>a. c ! a) L)"
proof -
  let ?vs = "Vertices pl"
  from assms have st: "static c ?vs" and li: "linked ?vs L" and hd: "hd L = 0"
    by (simp_all add: loop_inv_def)
  from li hd obtain xs where L: "L = 0 # xs" by (cases L) (auto simp: linked_def)
  have "remaining pl (Some 0) = Some (map (\<lambda>a. id_v (?vs ! a)) (0 # xs))"
    using li unfolding L linked_def by (intro remaining_walk) auto
  moreover have "map (\<lambda>a. id_v (?vs ! a)) L = map (\<lambda>a. c ! a) L"
    using st li by (auto simp: static_def linked_def)
  ultimately show ?thesis by (simp add: L)
qed

lemma decimate_ok:
  assumes wf: "wf_cell pts c" "Points input = Some pts"
  shows "\<exists>L pl q. cell_ok input this c L (pl, q, int (length L))"
proof -
  from start_state_inv [OF wf] obtain pl0 q0 cur0 where
    s0: "start_state input this [] c = Some (pl0, q0, cur0)" "loop_inv input this c [0..<length c] (pl0, q0, cur0)"
    by (metis prod_cases3)
  then have cur0: "cur0 = int (length c)" by (simp add: loop_inv_def)
  have dec: "decimate input this [] c = reduce input this (int (length c)) pl0 q0 cur0"
    using s0(1) by (simp add: decimate_def)
  show ?thesis
  proof (cases "TargetReduction this = 0")
    case True
    then have "decimate input this [] c = Some (pl0, q0, cur0)"
      using dec cur0 by (simp add: reduce_no_target)
    then have "cell_ok input this c [0..<length c] (pl0, q0, cur0)"
      using s0(2) inv_remaining [OF s0(2)] by (simp add: cell_ok_def enough_def)
    then show ?thesis using cur0
      by (intro exI [of _ "[0..<length c]"] exI [of _ pl0] exI [of _ q0]) simp
  next
    case False
    from reduce_inv [OF wf s0(2), of "int (length c)"] obtain pl q L where
      r: "reduce input this (int (length c)) pl0 q0 cur0 = Some (pl, q, int (length L))"
      "loop_inv input this c L (pl, q, int (length L))" "enough c (length [0..<length c]) (length L)"
      by blast
    then have "cell_ok input this c L (pl, q, int (length L))"
      using False dec inv_remaining [OF r(2)] by (simp add: cell_ok_def)
    then show ?thesis by blast
  qed
qed

lemma cell_ok_survivors:
  assumes "cell_ok input this c L s"
  shows "survivors input this c = Some (map (\<lambda>a. c ! a) L)"
proof -
  obtain pl q cur where s: "s = (pl, q, cur)" by (cases s)
  from assms have "decimate input this [] c = Some (pl, q, cur)"
    and "remaining pl (Some 0) = Some (map (\<lambda>a. c ! a) L)"
    unfolding s cell_ok_def by simp_all
  then show ?thesis by (simp add: survivors_def)
qed

lemma cell_out_mono:
  assumes "cell_out input this M c cell" "M \<subseteq>\<^sub>m M'"
  shows "cell_out input this M' c cell"
proof -
  from assms(1) obtain L s where c: "cell_ok input this c L s"
    "cell = (int (length L), map (\<lambda>a. the (M (c ! a))) L)" "(\<lambda>a. c ! a) ` set L \<subseteq> dom M"
    by (auto simp: cell_out_def)
  have "M' (c ! a) = M (c ! a)" if "a \<in> set L" for a
  proof -
    have "c ! a \<in> dom M" using that c(3) by auto
    with assms(2) show ?thesis by (metis map_le_def)
  qed
  then have "map (\<lambda>a. the (M (c ! a))) L = map (\<lambda>a. the (M' (c ! a))) L" by simp
  moreover have "dom M \<subseteq> dom M'" using assms(2) by (rule map_le_implies_dom_le)
  ultimately show ?thesis using c unfolding cell_out_def by blast
qed

lemma process_cell_ok:
  assumes wf: "wf_cell pts c" "Points input = Some pts" and out: "out_ok pts out"
  shows "\<exists>out'. process_cell input this fvi [] out c = Some ([], out') \<and> out_ok pts out' \<and>
     (\<exists>cell. newLines out' = newLines out @ [cell] \<and> cell_out input this (pointIdMap out') c cell) \<and>
     outCD out' = outCD out @ [(fvi, int (length (newLines out)))] \<and>
     pointIdMap out \<subseteq>\<^sub>m pointIdMap out' \<and>
     dom (pointIdMap out') = dom (pointIdMap out) \<union> (case survivors input this c of None \<Rightarrow> {} | Some ids \<Rightarrow> set ids)"
proof -
  from decimate_ok [OF wf] obtain L pl q where ok: "cell_ok input this c L (pl, q, int (length L))"
    by blast
  then have dec: "decimate input this [] c = Some (pl, q, int (length L))"
    and inv: "loop_inv input this c L (pl, q, int (length L))"
    by (simp_all add: cell_ok_def)
  let ?vs = "Vertices pl"
  from inv have st: "static c ?vs" and li: "linked ?vs L" and hd: "hd L = 0"
    by (simp_all add: loop_inv_def)
  from li hd obtain xs where L: "L = 0 # xs" by (cases L) (auto simp: linked_def)
  let ?out1 = "out\<lparr>newLines := newLines out @ [(int (length L), [])],
    outCD := outCD out @ [(fvi, int (length (newLines out)))]\<rparr>"
  have o1: "out_ok pts ?out1" using out by (simp add: out_ok_def)
  have em: "emit pts pl (Some 0) ?out1 = emit_all pts (map (\<lambda>a. ?vs ! a) L) ?out1"
    using li unfolding L linked_def by (intro emit_walk) auto
  have rng: "\<forall>v \<in> set (map (\<lambda>a. ?vs ! a) L). 0 \<le> id_v v \<and> id_v v < int (length pts)"
    using static_ids [OF wf(1) st] li by (auto simp: linked_def)
  from emit_all_ok [OF o1 rng, of "newLines out" "int (length L)" "[]"]
  obtain out' where o': "emit_all pts (map (\<lambda>a. ?vs ! a) L) ?out1 = Some out'" "out_ok pts out'"
    "newLines out' = newLines out @ [(int (length L), [] @ map (\<lambda>v. the (pointIdMap out' (id_v v))) (map (\<lambda>a. ?vs ! a) L))]"
    "pointIdMap ?out1 \<subseteq>\<^sub>m pointIdMap out'"
    "dom (pointIdMap out') = dom (pointIdMap ?out1) \<union> id_v ` set (map (\<lambda>a. ?vs ! a) L)"
    "outCD out' = outCD ?out1"
    by auto
  have ids: "id_v (?vs ! a) = c ! a" if "a \<in> set L" for a
    using that st li by (auto simp: static_def linked_def)
  then have m1: "map (\<lambda>v. the (pointIdMap out' (id_v v))) (map (\<lambda>a. ?vs ! a) L) = map (\<lambda>a. the (pointIdMap out' (c ! a))) L"
    by simp
  have m2: "id_v ` set (map (\<lambda>a. ?vs ! a) L) = (\<lambda>a. c ! a) ` set L"
    using ids by (auto simp: image_iff)
  have pc: "process_cell input this fvi [] out c = Some ([], out')"
    using dec wf(2) em o'(1) by (simp add: process_cell_def InsertNextCell_def Reset_def)
  have co: "cell_out input this (pointIdMap out') c (int (length L), map (\<lambda>a. the (pointIdMap out' (c ! a))) L)"
  proof -
    have "(\<lambda>a. c ! a) ` set L \<subseteq> dom (pointIdMap out')" unfolding o'(5) m2 by simp
    with ok show ?thesis
      unfolding cell_out_def by (intro exI [of _ L] exI [of _ "(pl, q, int (length L))"]) simp
  qed
  have sv: "(case survivors input this c of None \<Rightarrow> {} | Some ids \<Rightarrow> set ids) = (\<lambda>a. c ! a) ` set L"
    using cell_ok_survivors [OF ok] by simp
  have nl: "newLines out' = newLines out @ [(int (length L), map (\<lambda>a. the (pointIdMap out' (c ! a))) L)]"
    using o'(3) m1 by simp
  have le: "pointIdMap out \<subseteq>\<^sub>m pointIdMap out'" using o'(4) by simp
  have dm: "dom (pointIdMap out') = dom (pointIdMap out) \<union> (case survivors input this c of None \<Rightarrow> {} | Some ids \<Rightarrow> set ids)"
    unfolding sv using o'(5) m2 by simp
  have cd: "outCD out' = outCD out @ [(fvi, int (length (newLines out)))]" using o'(6) by simp
  from pc o'(2) nl co le dm cd show ?thesis by blast
qed

lemma run_ok_step:
  assumes run: "run_ok input this pts seen out"
    and o': "out_ok pts out'" and nl: "newLines out' = newLines out @ [cell]"
    and co: "cell_out input this (pointIdMap out') c cell"
    and cd: "outCD out' = outCD out @ [(int (length (concat seen)), int (length (newLines out)))]"
    and le: "pointIdMap out \<subseteq>\<^sub>m pointIdMap out'"
    and dm: "dom (pointIdMap out') = dom (pointIdMap out) \<union> (case survivors input this c of None \<Rightarrow> {} | Some ids \<Rightarrow> set ids)"
  shows "run_ok input this pts (seen @ [c]) out'"
proof -
  from run have la: "list_all2 (cell_out input this (pointIdMap out)) seen (newLines out)"
    and ocd: "outCD out = map (\<lambda>k. (int (length (concat (take k seen))), int k)) [0..<length seen]"
    and od: "dom (pointIdMap out) = (\<Union>c \<in> set seen. case survivors input this c of None \<Rightarrow> {} | Some ids \<Rightarrow> set ids)"
    by (simp_all add: run_ok_def)
  from la have len: "length (newLines out) = length seen" by (simp add: list_all2_lengthD)
  from la have "list_all2 (cell_out input this (pointIdMap out')) seen (newLines out)"
    by (rule list_all2_mono) (rule cell_out_mono [OF _ le])
  with co have 1: "list_all2 (cell_out input this (pointIdMap out')) (seen @ [c]) (newLines out')"
    unfolding nl by (simp add: list_all2_appendI)
  have 2: "outCD out' = map (\<lambda>k. (int (length (concat (take k (seen @ [c])))), int k)) [0..<length (seen @ [c])]"
    unfolding cd ocd len by simp
  have 3: "dom (pointIdMap out') = (\<Union>c \<in> set (seen @ [c]). case survivors input this c of None \<Rightarrow> {} | Some ids \<Rightarrow> set ids)"
    unfolding dm od by auto
  show ?thesis unfolding run_ok_def using o' 1 2 3 by blast
qed

lemma line_loop_ok:
  assumes pts: "Points input = Some pts"
  shows "\<forall>c \<in> set rest. wf_cell pts c \<Longrightarrow> run_ok input this pts seen out \<Longrightarrow>
     \<exists>m out'. m \<le> length rest \<and> ((\<forall>j. \<not> CheckAbort j) \<longrightarrow> m = length rest) \<and>
       (m < length rest \<longrightarrow> CheckAbort (length seen + m)) \<and>
       line_loop input this CheckAbort (length seen) rest (int (length (concat seen))) [] out = Some ([], out') \<and>
       run_ok input this pts (seen @ take m rest) out'"
proof (induction rest arbitrary: seen out)
  case Nil
  then show ?case by simp
next
  case (Cons c rest)
  show ?case
  proof (cases "CheckAbort (length seen)")
    case True
    then show ?thesis using Cons.prems(2) by (intro exI [of _ 0] exI [of _ out]) auto
  next
    case False
    from Cons.prems(1) have wf: "wf_cell pts c" by simp
    from Cons.prems(2) have ok: "out_ok pts out" by (simp add: run_ok_def)
    from process_cell_ok [OF wf pts ok, where this = this and fvi = "int (length (concat seen))"]
    obtain out1 cell where p: "process_cell input this (int (length (concat seen))) [] out c = Some ([], out1)"
      "out_ok pts out1" "newLines out1 = newLines out @ [cell]" "cell_out input this (pointIdMap out1) c cell"
      "outCD out1 = outCD out @ [(int (length (concat seen)), int (length (newLines out)))]"
      "pointIdMap out \<subseteq>\<^sub>m pointIdMap out1"
      "dom (pointIdMap out1) = dom (pointIdMap out) \<union> (case survivors input this c of None \<Rightarrow> {} | Some ids \<Rightarrow> set ids)"
      by blast
    have run1: "run_ok input this pts (seen @ [c]) out1"
      using Cons.prems(2) p(2-7) by (rule run_ok_step)
    from Cons.IH [OF _ run1] Cons.prems(1)
    obtain m out' where m: "m \<le> length rest" "(\<forall>j. \<not> CheckAbort j) \<longrightarrow> m = length rest"
      "line_loop input this CheckAbort (length (seen @ [c])) rest (int (length (concat (seen @ [c])))) [] out1 = Some ([], out')"
      "run_ok input this pts ((seen @ [c]) @ take m rest) out'"
      and ab: "m < length rest \<longrightarrow> CheckAbort (length (seen @ [c]) + m)"
      by auto
    have "line_loop input this CheckAbort (length seen) (c # rest) (int (length (concat seen))) [] out = Some ([], out')"
      using False p(1) m(3) by simp
    then show ?thesis using m(1,2,4) ab
      by (intro exI [of _ "Suc m"] exI [of _ out']) simp
  qed
qed

lemma run_ok_empty: "run_ok input this pts [] empty_output"
  by (simp add: run_ok_def out_ok_def empty_output_def)

lemma RequestData_ok:
  assumes wf: "wf_input input" and q: "PriorityQueue this = []"
    and ls: "Lines input = Some inputLines" and pts: "Points input = Some inputPoints"
  shows "\<exists>m out. m \<le> length inputLines \<and>
     ((\<forall>j. \<not> CheckAbort j) \<and> inputPoints \<noteq> [] \<longrightarrow> m = length inputLines) \<and>
     (m < length inputLines \<and> inputPoints \<noteq> [] \<longrightarrow> CheckAbort m) \<and>
     RequestData this CheckAbort input = Some (1, this, out) \<and>
     run_ok input this inputPoints (take m inputLines) out"
proof (cases "int (length inputLines) < 1 \<or> int (length inputPoints) < 1")
  case True
  then have "RequestData this CheckAbort input = Some (1, this, empty_output)"
    using ls pts by (simp add: RequestData_def)
  moreover have "inputLines \<noteq> [] \<Longrightarrow> inputPoints = []" using True by auto
  ultimately show ?thesis using run_ok_empty [of input this inputPoints]
    by (intro exI [of _ 0] exI [of _ empty_output]) auto
next
  case False
  from wf ls pts have "\<forall>c \<in> set inputLines. wf_cell inputPoints c" by (simp add: wf_input_def)
  from line_loop_ok [OF pts this run_ok_empty, where this = this and CheckAbort = CheckAbort]
  obtain m out where m: "m \<le> length inputLines" "(\<forall>j. \<not> CheckAbort j) \<longrightarrow> m = length inputLines"
    "line_loop input this CheckAbort 0 inputLines 0 [] empty_output = Some ([], out)"
    "run_ok input this inputPoints (take m inputLines) out"
    and ab: "m < length inputLines \<longrightarrow> CheckAbort m"
    by auto
  have "this\<lparr>PriorityQueue := []\<rparr> = this" using q by simp
  then have "RequestData this CheckAbort input = Some (1, this, out)"
    using False ls pts q m(3) by (simp add: RequestData_def)
  then show ?thesis using m(1,2,4) ab by (intro exI [of _ m] exI [of _ out]) simp
qed

lemma cell_ok_facts:
  assumes "cell_ok input this c L s"
  shows "L \<noteq> []" "hd L = 0" "last L = length c - 1" "subseq L [0..<length c]"
    "\<forall>a \<in> set L. a < length c" "distinct L" "length L \<le> length c"
    "subseq (map (\<lambda>a. c ! a) L) c" "enough c (length c) (length L)"
    "TargetReduction this = 0 \<longrightarrow> L = [0..<length c]"
    "survivors input this c = Some (map (\<lambda>a. c ! a) L)"
    "decimate input this [] c = Some s" "snd (snd s) = int (length L)"
proof -
  obtain pl q cur where s: "s = (pl, q, cur)" by (cases s)
  from assms have inv: "loop_inv input this c L (pl, q, cur)" by (simp add: cell_ok_def s)
  then have li: "linked (Vertices pl) L" and st: "static c (Vertices pl)" by (simp_all add: loop_inv_def)
  show "L \<noteq> []" "distinct L" using li by (simp_all add: linked_def)
  show "hd L = 0" "last L = length c - 1" "subseq L [0..<length c]" using inv by (simp_all add: loop_inv_def)
  show "\<forall>a \<in> set L. a < length c" using li st by (simp add: linked_def static_def)
  from \<open>subseq L [0..<length c]\<close> show "length L \<le> length c"
    using list_emb_length by fastforce
  from \<open>subseq L [0..<length c]\<close> have "subseq (map (\<lambda>a. c ! a) L) (map (\<lambda>a. c ! a) [0..<length c])"
    by (rule subseq_map)
  then show "subseq (map (\<lambda>a. c ! a) L) c" by (simp add: map_nth)
  show "enough c (length c) (length L)" "TargetReduction this = 0 \<longrightarrow> L = [0..<length c]"
    "decimate input this [] c = Some s"
    using assms by (simp_all add: cell_ok_def)
  show "survivors input this c = Some (map (\<lambda>a. c ! a) L)" using assms by (rule cell_ok_survivors)
  show "snd (snd s) = int (length L)" using inv by (simp add: loop_inv_def s)
qed

lemma RequestData_cells:
  assumes wf: "wf_input input" and q: "PriorityQueue this = []"
    and ls: "Lines input = Some inputLines" and pts: "Points input = Some inputPoints"
  shows "\<exists>out. RequestData this CheckAbort input = Some (1, this, out) \<and> out_ok inputPoints out \<and>
     length (newLines out) \<le> length inputLines \<and>
     ((\<forall>j. \<not> CheckAbort j) \<and> inputPoints \<noteq> [] \<longrightarrow> length (newLines out) = length inputLines) \<and>
     (\<forall>k < length (newLines out). cell_out input this (pointIdMap out) (inputLines ! k) (newLines out ! k)) \<and>
     outCD out = map (\<lambda>k. (int (length (concat (take k inputLines))), int k)) [0..<length (newLines out)] \<and>
     dom (pointIdMap out) =
       (\<Union>k < length (newLines out). case survivors input this (inputLines ! k) of None \<Rightarrow> {} | Some ids \<Rightarrow> set ids) \<and>
     (length (newLines out) < length inputLines \<longrightarrow> CheckAbort (length (newLines out)))"
proof -
  from RequestData_ok [OF wf q ls pts, of CheckAbort] obtain m out where
    m: "m \<le> length inputLines" "(\<forall>j. \<not> CheckAbort j) \<and> inputPoints \<noteq> [] \<longrightarrow> m = length inputLines"
    and ab: "m < length inputLines \<and> inputPoints \<noteq> [] \<longrightarrow> CheckAbort m"
    and rd: "RequestData this CheckAbort input = Some (1, this, out)"
    and run: "run_ok input this inputPoints (take m inputLines) out"
    by blast
  from run have ok: "out_ok inputPoints out"
    and la: "list_all2 (cell_out input this (pointIdMap out)) (take m inputLines) (newLines out)"
    and cd: "outCD out = map (\<lambda>k. (int (length (concat (take k (take m inputLines)))), int k)) [0..<length (take m inputLines)]"
    and dm: "dom (pointIdMap out) = (\<Union>c \<in> set (take m inputLines). case survivors input this c of None \<Rightarrow> {} | Some ids \<Rightarrow> set ids)"
    by (simp_all add: run_ok_def)
  from la m(1) have len: "length (newLines out) = m" by (auto dest: list_all2_lengthD)
  have 1: "\<forall>k < length (newLines out). cell_out input this (pointIdMap out) (inputLines ! k) (newLines out ! k)"
  proof (intro allI impI)
    fix k assume k: "k < length (newLines out)"
    with la have "cell_out input this (pointIdMap out) (take m inputLines ! k) (newLines out ! k)"
      by (rule list_all2_nthD2)
    then show "cell_out input this (pointIdMap out) (inputLines ! k) (newLines out ! k)"
      using k len by simp
  qed
  have 2: "outCD out = map (\<lambda>k. (int (length (concat (take k inputLines))), int k)) [0..<length (newLines out)]"
    unfolding cd using m(1) len by (simp add: min_def)
  have "set (take m inputLines) = (\<lambda>k. inputLines ! k) ` {..<m}"
  proof -
    have "set (take m inputLines) = {take m inputLines ! k |k. k < m}"
      using m(1) by (simp add: set_conv_nth)
    also have "\<dots> = {inputLines ! k |k. k < m}" by (simp cong: rev_conj_cong)
    finally show ?thesis by auto
  qed
  then have 3: "dom (pointIdMap out) =
       (\<Union>k < length (newLines out). case survivors input this (inputLines ! k) of None \<Rightarrow> {} | Some ids \<Rightarrow> set ids)"
    unfolding dm len by simp
  have 4: "length (newLines out) < length inputLines \<longrightarrow> CheckAbort (length (newLines out))"
  proof
    assume less: "length (newLines out) < length inputLines"
    then have "hd inputLines \<in> set inputLines" by (cases inputLines) simp_all
    with wf ls pts have "wf_cell inputPoints (hd inputLines)" by (simp add: wf_input_def)
    then have "inputPoints \<noteq> []" by (cases "hd inputLines") (auto simp: wf_cell_def)
    with ab less len show "CheckAbort (length (newLines out))" by simp
  qed
  show ?thesis using rd ok m len 1 2 3 4 by (intro exI [of _ out]) simp
qed

lemma out_ok_point:
  assumes "out_ok pts out" "pointIdMap out i = Some j"
  shows "(i, j) \<in> set (outPD out)" "0 \<le> j" "nat j < length (newPts out)" "newPts out ! nat j = pts ! nat i"
proof -
  from assms have M: "map_of (outPD out) i = Some j"
    and S: "map snd (outPD out) = map int [0..<length (outPD out)]"
    and P: "newPts out = map (\<lambda>x. pts ! nat (fst x)) (outPD out)"
    by (simp_all add: out_ok_def)
  from M show 1: "(i, j) \<in> set (outPD out)" by (rule map_of_SomeD)
  then obtain a where a: "a < length (outPD out)" "outPD out ! a = (i, j)"
    by (auto simp: in_set_conv_nth)
  have "map snd (outPD out) ! a = map int [0..<length (outPD out)] ! a" using S by simp
  with a have j: "j = int a" by simp
  then show "0 \<le> j" by simp
  show "nat j < length (newPts out)" using a j P by simp
  show "newPts out ! nat j = pts ! nat i" using a j P by simp
qed


lemma cell_out_wf:
  assumes "wf_input input" "Lines input = Some inputLines" "Points input = Some inputPoints"
    "k < length inputLines"
  shows "wf_cell inputPoints (inputLines ! k)"
  using assms by (simp add: wf_input_def)

lemma Distance2_nonneg: "0 \<le> Distance2BetweenPoints p q"
  by (cases p; cases q) (simp add: Distance2BetweenPoints_def)

lemma Distance2_line_point:
  "Distance2BetweenPoints x (line_point p1 p2 t) =
     Dot (Subtract x p1) (Subtract x p1) - 2 * t * Dot (Subtract x p1) (Subtract p2 p1)
       + t\<^sup>2 * Dot (Subtract p2 p1) (Subtract p2 p1)"
  by (cases x; cases p1; cases p2)
    (simp add: Distance2BetweenPoints_def line_point_def Dot_def Subtract_def power2_eq_square algebra_simps)

lemma Dot_Subtract_self: "Dot (Subtract p2 p1) (Subtract p2 p1) = Distance2BetweenPoints p1 p2"
  by (cases p1; cases p2)
    (simp add: Distance2BetweenPoints_def Dot_def Subtract_def power2_eq_square algebra_simps)

lemma quadratic_least:
  fixes A U V t :: real
  assumes "0 < V"
  shows "A - 2 * t * U + t\<^sup>2 * V = (A - 2 * (U / V) * U + (U / V)\<^sup>2 * V) + (t - U / V)\<^sup>2 * V"
  using assms by (simp add: field_simps power2_eq_square)

lemma DistanceToLine_least:
  assumes "Distance2BetweenPoints p1 p2 \<noteq> 0"
  shows "DistanceToLine x p1 p2 \<le> sqrt (Distance2BetweenPoints x (line_point p1 p2 t))"
proof -
  let ?V = "Dot (Subtract p2 p1) (Subtract p2 p1)"
  let ?U = "Dot (Subtract x p1) (Subtract p2 p1)"
  have V: "0 < ?V" using assms Distance2_nonneg [of p1 p2] by (simp add: Dot_Subtract_self)
  have "Distance2BetweenPoints x (line_point p1 p2 (?U / ?V)) \<le> Distance2BetweenPoints x (line_point p1 p2 t)"
    unfolding Distance2_line_point quadratic_least [OF V, of _ t ?U] using V by simp
  then show ?thesis by (simp add: DistanceToLine_def Let_def)
qed

lemma DistanceToLine_attained:
  "\<exists>t. DistanceToLine x p1 p2 = sqrt (Distance2BetweenPoints x (line_point p1 p2 t))"
  by (auto simp: DistanceToLine_def Let_def)

lemma DistanceToLine_nonneg: "0 \<le> DistanceToLine x p1 p2"
  by (simp add: DistanceToLine_def Let_def Distance2_nonneg)

lemma ComputeError_nonneg:
  assumes "ComputeError input pl i = Some e"
  shows "0 \<le> e"
  using assms
  by (auto simp: ComputeError_def DistanceToLine_nonneg split: Option.bind_splits if_splits)

lemma visits_facts:
  assumes wf: "wf_cell pts c" "Points input = Some pts"
  shows "\<exists>s0. start_state input this [] c = Some s0 \<and>
     (\<forall>s. visits input this (int (length c)) s0 s \<longrightarrow> (\<exists>L. loop_inv input this c L s))"
proof -
  from start_state_inv [OF wf] obtain s0 where
    s0: "start_state input this [] c = Some s0" "loop_inv input this c [0..<length c] s0"
    by blast
  have "\<exists>L. loop_inv input this c L s" if "visits input this (int (length c)) s0 s" for s
    using visits_inv [OF wf that s0(2)] by blast
  with s0(1) show ?thesis by blast
qed

section \<open>Runs on concrete inputs\<close>

lemma VTK_DOUBLE_MAX_ge_1: "1 \<le> VTK_DOUBLE_MAX"
  by (simp add: VTK_DOUBLE_MAX_def)

lemma sqrt_le_VTK_DOUBLE_MAX:
  assumes "x \<le> 1"
  shows "sqrt x \<le> VTK_DOUBLE_MAX"
proof -
  have "sqrt x \<le> 1" using assms by simp
  then show ?thesis using VTK_DOUBLE_MAX_ge_1 by (rule order_trans)
qed

lemma zero_le_VTK_DOUBLE_MAX: "0 \<le> VTK_DOUBLE_MAX"
  using VTK_DOUBLE_MAX_ge_1 by simp

lemma one_le_VTK_DOUBLE_MAX_times: "1 \<le> VTK_DOUBLE_MAX * 100"
  using VTK_DOUBLE_MAX_ge_1 by simp

lemmas run_simps = RequestData_def process_cell_def decimate_def start_state_def new_Polyline_def new_Vertex_def
  nth_at_def deref_def GetPoint_def Remove_def ComputeError_def enqueue_def requeue_def remove_popped_def
  reducing_def InsertNextCell_def InsertCellPoint_def emit_vertex_def Insert_def Pop_def DeleteId_def Reset_def
  empty_output_def new_vtkDecimatePolylineFilter_def Distance2BetweenPoints_def DistanceToLine_def Dot_def Subtract_def
  line_point_def never_abort_def seed.simps reduce.simps emit.simps Let_def upt_rec
  sqrt_le_VTK_DOUBLE_MAX zero_le_VTK_DOUBLE_MAX one_le_VTK_DOUBLE_MAX_times

lemma wf_collinear_input: "wf_input collinear_input"
  by (simp add: wf_input_def wf_cell_def collinear_input_def collinear_points_def crossing_lines_def)



lemma collinear_input_simps:
  "Lines collinear_input = Some crossing_lines" "Points collinear_input = Some collinear_points"
  "PriorityQueue new_vtkDecimatePolylineFilter = []"
  by (simp_all add: collinear_input_def new_vtkDecimatePolylineFilter_def)


lemma wf_bent_cell: "wf_cell bent_points bent_cell"
  by (simp add: wf_cell_def bent_points_def bent_cell_def)


lemma bent_input_simps:
  "Lines bent_input = Some bent_lines" "Points bent_input = Some bent_points"
  "PriorityQueue strict_filter = []" "MaximumError strict_filter = 0"
  "PriorityQueue lossless_filter = []" "TargetReduction lossless_filter = 0"
  "bent_lines ! 0 = bent_cell"
  by (simp_all add: bent_input_def strict_filter_def lossless_filter_def new_vtkDecimatePolylineFilter_def
      bent_lines_def bent_cell_def)


section \<open>The claims\<close>

text \<open>
  The theorems on whole runs take a well-formed input (\<open>wf_input\<close>) and a filter whose
  queue is empty, as it is after construction and after every run. \<open>CheckAbort\<close> is
  arbitrary. A result \<open>Some (1, this, out)\<close> says that \<open>RequestData\<close> returns 1 without
  a null or out-of-range access.
\<close>

text \<open>
  C1. The claim: the per-cell attributes copied to the i-th output cell come from the i-th
  input cell. The source index passed to \<open>CopyData\<close> is \<open>firstVertexIndex\<close>, the number
  of vertices of the polylines before the current one. On three polylines of two vertices each,
  the second output cell receives the attributes stored at index 2 and the third those stored at
  index 4.
\<close>

theorem cell_data_source_three_segments:
  "RequestData new_vtkDecimatePolylineFilter never_abort
     \<lparr>Points = Some [(0, 0, 0), (1, 0, 0), (2, 0, 0), (3, 0, 0)], Lines = Some [[0, 1], [1, 2], [2, 3]]\<rparr> =
   Some (1, new_vtkDecimatePolylineFilter,
     \<lparr>newPts = [(0, 0, 0), (1, 0, 0), (2, 0, 0), (3, 0, 0)], newLines = [(2, [0, 1]), (2, [1, 2]), (2, [2, 3])],
      outPD = [(0, 0), (1, 1), (2, 2), (3, 3)], outCD = [(0, 0), (2, 1), (4, 2)],
      pointIdMap = map_of [(3, 3), (2, 2), (1, 1), (0, 0)]\<rparr>)"
  by (simp add: run_simps)

text \<open>
  C2. For the single open polyline over the points (0,0,0), (1,0.01,0), (2,0,0), (3,0,0) with
  ids 0..3, a target reduction of 0.9 and the default maximum error, the reduction removes both
  interior vertices: the point ids 0 and 3 are left, one cell of two points is emitted, and the
  new points are the old points 0 and 3 in this order.
\<close>

theorem scenario_four_points:
  "survivors \<lparr>Points = Some [(0, 0, 0), (1, 1 / 100, 0), (2, 0, 0), (3, 0, 0)], Lines = Some [[0, 1, 2, 3]]\<rparr>
     new_vtkDecimatePolylineFilter [0, 1, 2, 3] = Some [0, 3] \<and>
   RequestData new_vtkDecimatePolylineFilter never_abort
     \<lparr>Points = Some [(0, 0, 0), (1, 1 / 100, 0), (2, 0, 0), (3, 0, 0)], Lines = Some [[0, 1, 2, 3]]\<rparr> =
   Some (1, new_vtkDecimatePolylineFilter,
     \<lparr>newPts = [(0, 0, 0), (3, 0, 0)], newLines = [(2, [0, 1])], outPD = [(0, 0), (3, 1)], outCD = [(0, 0)],
      pointIdMap = map_of [(3, 1), (0, 0)]\<rparr>)"
  by (simp add: run_simps survivors_def remaining.simps)






text \<open>
  C5. If \<open>TargetReduction\<close> is 0, no vertex is removed: every emitted cell has the vertices
  of its input polyline, in the same order, each mapped to the new point that carries the
  coordinates of the old one; and without an abort every polyline is emitted.
\<close>

theorem no_reduction_at_target_zero:
  assumes "TargetReduction this = 0" "wf_input input" "PriorityQueue this = []"
    "Lines input = Some inputLines" "Points input = Some inputPoints"
  shows "\<exists>out. RequestData this CheckAbort input = Some (1, this, out) \<and>
     ((\<forall>j. \<not> CheckAbort j) \<longrightarrow> length (newLines out) = length inputLines) \<and>
     (\<forall>k < length (newLines out).
        newLines out ! k =
          (int (length (inputLines ! k)), map (\<lambda>i. the (pointIdMap out i)) (inputLines ! k)) \<and>
        (\<forall>i \<in> set (inputLines ! k). \<exists>j. pointIdMap out i = Some j \<and> 0 \<le> j \<and>
           nat j < length (newPts out) \<and> newPts out ! nat j = inputPoints ! nat i))"
proof -
  from RequestData_cells [OF assms(2-5), of CheckAbort] obtain out where
    rd: "RequestData this CheckAbort input = Some (1, this, out)"
    and ok: "out_ok inputPoints out"
    and len: "length (newLines out) \<le> length inputLines"
    and all: "(\<forall>j. \<not> CheckAbort j) \<and> inputPoints \<noteq> [] \<longrightarrow> length (newLines out) = length inputLines"
    and cells: "\<forall>k < length (newLines out). cell_out input this (pointIdMap out) (inputLines ! k) (newLines out ! k)"
    by blast
  have 1: "(\<forall>j. \<not> CheckAbort j) \<longrightarrow> length (newLines out) = length inputLines"
  proof (cases "inputPoints = []")
    case True
    have "inputLines = []"
    proof (rule ccontr)
      assume "inputLines \<noteq> []"
      then have "wf_cell inputPoints (inputLines ! 0)"
        using assms(2,4,5) by (intro cell_out_wf) auto
      then show False using True by (cases "inputLines ! 0") (auto simp: wf_cell_def)
    qed
    then show ?thesis using len by simp
  next
    case False
    then show ?thesis using all by simp
  qed
  have 2: "newLines out ! k =
          (int (length (inputLines ! k)), map (\<lambda>i. the (pointIdMap out i)) (inputLines ! k)) \<and>
        (\<forall>i \<in> set (inputLines ! k). \<exists>j. pointIdMap out i = Some j \<and> 0 \<le> j \<and>
           nat j < length (newPts out) \<and> newPts out ! nat j = inputPoints ! nat i)"
    if k: "k < length (newLines out)" for k
  proof -
    let ?c = "inputLines ! k"
    from cells k obtain L s where c: "cell_ok input this ?c L s"
      and cell: "newLines out ! k = (int (length L), map (\<lambda>a. the (pointIdMap out (?c ! a))) L)"
      and dm: "(\<lambda>a. ?c ! a) ` set L \<subseteq> dom (pointIdMap out)"
      by (auto simp: cell_out_def)
    from cell_ok_facts(10) [OF c] assms(1) have L: "L = [0..<length ?c]" by simp
    have ids: "map (\<lambda>a. ?c ! a) L = ?c" unfolding L by (rule map_nth)
    have "map (\<lambda>a. the (pointIdMap out (?c ! a))) L = map (\<lambda>i. the (pointIdMap out i)) (map (\<lambda>a. ?c ! a) L)"
      by (simp add: comp_def)
    then have a: "newLines out ! k = (int (length ?c), map (\<lambda>i. the (pointIdMap out i)) ?c)"
      unfolding cell ids by (simp add: L)
    have "set ?c \<subseteq> dom (pointIdMap out)" using dm ids by (metis set_map)
    then have "\<exists>j. pointIdMap out i = Some j \<and> 0 \<le> j \<and>
           nat j < length (newPts out) \<and> newPts out ! nat j = inputPoints ! nat i" if "i \<in> set ?c" for i
      using that out_ok_point [OF ok] by blast
    with a show ?thesis by blast
  qed
  from rd 1 2 show ?thesis by blast
qed

theorem no_reduction_at_target_zero_witness:
  "\<exists>out. RequestData lossless_filter never_abort collinear_input = Some (1, lossless_filter, out) \<and>
     ((\<forall>j. \<not> never_abort j) \<longrightarrow> length (newLines out) = length crossing_lines) \<and>
     (\<forall>k < length (newLines out).
        newLines out ! k =
          (int (length (crossing_lines ! k)), map (\<lambda>i. the (pointIdMap out i)) (crossing_lines ! k)) \<and>
        (\<forall>i \<in> set (crossing_lines ! k). \<exists>j. pointIdMap out i = Some j \<and> 0 \<le> j \<and>
           nat j < length (newPts out) \<and> newPts out ! nat j = collinear_points ! nat i))"
  by (rule no_reduction_at_target_zero [OF bent_input_simps(6) wf_collinear_input bent_input_simps(5)
        collinear_input_simps(1,2)])

text \<open>
  C6. For a slot whose \<open>prev\<close> and \<open>next\<close> point to slots of the polyline, \<open>ComputeError\<close>
  returns 0 when the squared distance between the positions of the two neighbours is zero,
  whatever the position of the slot itself; otherwise it returns the distance from the
  position of the slot to the infinite line through the neighbours, which is the least
  distance to a point of that line.
\<close>

theorem ComputeError_value:
  assumes "Points input = Some pts" "nth_at (Vertices polyline) idx = Some v"
    "deref (Vertices polyline) (prev v) = Some vp" "deref (Vertices polyline) (next_v v) = Some vn"
    "GetPoint pts (id_v vp) = Some x1" "GetPoint pts (id_v v) = Some x" "GetPoint pts (id_v vn) = Some x2"
  shows "\<exists>e. ComputeError input polyline idx = Some e \<and>
     (Distance2BetweenPoints x1 x2 = 0 \<longrightarrow> e = 0) \<and>
     (Distance2BetweenPoints x1 x2 \<noteq> 0 \<longrightarrow>
        e = DistanceToLine x x1 x2 \<and>
        (\<forall>t. e \<le> sqrt (Distance2BetweenPoints x (line_point x1 x2 t))) \<and>
        (\<exists>t. e = sqrt (Distance2BetweenPoints x (line_point x1 x2 t))))"
proof -
  have "ComputeError input polyline idx =
      Some (if Distance2BetweenPoints x1 x2 = 0 then 0 else DistanceToLine x x1 x2)"
    using assms by (simp add: ComputeError_def)
  then show ?thesis
    using DistanceToLine_least [of x1 x2 x] DistanceToLine_attained [of x x1 x2] by auto
qed

theorem ComputeError_value_witness:
  "\<exists>e. ComputeError bent_input bent_polyline 1 = Some e \<and>
     (Distance2BetweenPoints (0, 0, 0) (2, 0, 0) = 0 \<longrightarrow> e = 0) \<and>
     (Distance2BetweenPoints (0, 0, 0) (2, 0, 0) \<noteq> 0 \<longrightarrow>
        e = DistanceToLine (1, 1, 0) (0, 0, 0) (2, 0, 0) \<and>
        (\<forall>t. e \<le> sqrt (Distance2BetweenPoints (1, 1, 0) (line_point (0, 0, 0) (2, 0, 0) t))) \<and>
        (\<exists>t. e = sqrt (Distance2BetweenPoints (1, 1, 0) (line_point (0, 0, 0) (2, 0, 0) t))))"
  by (rule ComputeError_value [where pts = bent_points
        and v = "\<lparr>index = 1, id_v = 1, prev = Some 0, next_v = Some 2, removable = True\<rparr>"
        and vp = "\<lparr>index = 0, id_v = 0, prev = None, next_v = Some 1, removable = False\<rparr>"
        and vn = "\<lparr>index = 2, id_v = 2, prev = Some 1, next_v = None, removable = False\<rparr>"])
    (simp_all add: bent_input_def bent_points_def bent_polyline_def nth_at_def deref_def GetPoint_def)

text \<open>
  C7. With \<open>MaximumError\<close> = 0, in every state in which the head of the reduction loop of a
  polyline is reached, every entry of the queue has priority 0 and belongs to a slot whose
  current error is 0: a vertex with a nonzero error is not in the queue, neither after the
  seeding nor after the removal of a neighbour, and every vertex that is popped, hence
  removed, has the error 0.
\<close>

theorem only_zero_error_removed:
  assumes "MaximumError this = 0" "wf_cell pts c" "Points input = Some pts"
  shows "\<exists>s0. start_state input this [] c = Some s0 \<and>
     (\<forall>polyline q cur. visits input this (int (length c)) s0 (polyline, q, cur) \<longrightarrow>
        (\<forall>(e, i) \<in> set q. e = 0 \<and> ComputeError input polyline i = Some 0) \<and>
        (\<forall>poppedIdx q0. Pop q = (poppedIdx, q0) \<and> \<not> poppedIdx < 0 \<longrightarrow>
           ComputeError input polyline poppedIdx = Some 0))"
proof -
  from visits_facts [OF assms(2,3), of this] obtain s0 where
    s0: "start_state input this [] c = Some s0"
    and v: "\<And>s. visits input this (int (length c)) s0 s \<Longrightarrow> \<exists>L. loop_inv input this c L s"
    by blast
  have "(\<forall>(e, i) \<in> set q. e = 0 \<and> ComputeError input polyline i = Some 0) \<and>
        (\<forall>poppedIdx q0. Pop q = (poppedIdx, q0) \<and> \<not> poppedIdx < 0 \<longrightarrow>
           ComputeError input polyline poppedIdx = Some 0)"
    if "visits input this (int (length c)) s0 (polyline, q, cur)" for polyline q cur
  proof -
    from v [OF that] obtain L where "loop_inv input this c L (polyline, q, cur)" by blast
    then have q: "qinv input this polyline L {} q" by (simp add: loop_inv_def)
    have 1: "e = 0 \<and> ComputeError input polyline i = Some 0" if "(e, i) \<in> set q" for e i
    proof -
      from q that have "ComputeError input polyline i = Some e" "e \<le> 0"
        using assms(1) by (auto simp: qinv_def)
      with ComputeError_nonneg [of input polyline i e] show ?thesis by simp
    qed
    have 2: "ComputeError input polyline poppedIdx = Some 0"
      if "Pop q = (poppedIdx, q0)" "\<not> poppedIdx < 0" for poppedIdx q0
    proof -
      from that obtain e where "q = (e, poppedIdx) # q0" by (cases q) (auto simp: Pop_def)
      then have "(e, poppedIdx) \<in> set q" by simp
      with 1 show ?thesis by blast
    qed
    from 1 2 show ?thesis by blast
  qed
  with s0 show ?thesis by blast
qed

theorem only_zero_error_removed_witness:
  "\<exists>s0. start_state bent_input strict_filter [] bent_cell = Some s0 \<and>
     (\<forall>polyline q cur. visits bent_input strict_filter (int (length bent_cell)) s0 (polyline, q, cur) \<longrightarrow>
        (\<forall>(e, i) \<in> set q. e = 0 \<and> ComputeError bent_input polyline i = Some 0) \<and>
        (\<forall>poppedIdx q0. Pop q = (poppedIdx, q0) \<and> \<not> poppedIdx < 0 \<longrightarrow>
           ComputeError bent_input polyline poppedIdx = Some 0))"
  by (rule only_zero_error_removed [OF bent_input_simps(4) wf_bent_cell bent_input_simps(2)])






text \<open>
  C10. The seeding of a polyline succeeds, and in every state in which the head of its
  reduction loop is reached, an id popped from the queue is the number of an interior,
  removable slot that is live, whose \<open>prev\<close> and \<open>next\<close> are not null and point to live
  slots; the body of the loop then runs through \<open>Remove\<close>, the accesses to the two
  neighbours and both calls of \<open>ComputeError\<close> without a null dereference.
\<close>

theorem popped_slot_is_interior_and_linked:
  assumes "wf_cell pts c" "Points input = Some pts"
  shows "\<exists>s0. start_state input this [] c = Some s0 \<and>
     (\<forall>polyline q cur poppedIdx q0.
        visits input this (int (length c)) s0 (polyline, q, cur) \<and>
        Pop q = (poppedIdx, q0) \<and> \<not> poppedIdx < 0 \<longrightarrow>
        (\<exists>v p n. nth_at (Vertices polyline) poppedIdx = Some v \<and> removable v \<and>
           0 < poppedIdx \<and> poppedIdx < int (length c) - 1 \<and> live polyline (nat poppedIdx) \<and>
           prev v = Some p \<and> live polyline p \<and> next_v v = Some n \<and> live polyline n) \<and>
        (\<exists>polyline' q'. remove_popped input this polyline q0 poppedIdx = Some (polyline', q')))"
proof -
  from visits_facts [OF assms, of this] obtain s0 where
    s0: "start_state input this [] c = Some s0"
    and v: "\<And>s. visits input this (int (length c)) s0 s \<Longrightarrow> \<exists>L. loop_inv input this c L s"
    by blast
  have "(\<exists>v p n. nth_at (Vertices polyline) poppedIdx = Some v \<and> removable v \<and>
           0 < poppedIdx \<and> poppedIdx < int (length c) - 1 \<and> live polyline (nat poppedIdx) \<and>
           prev v = Some p \<and> live polyline p \<and> next_v v = Some n \<and> live polyline n) \<and>
        (\<exists>polyline' q'. remove_popped input this polyline q0 poppedIdx = Some (polyline', q'))"
    if vis: "visits input this (int (length c)) s0 (polyline, q, cur)"
      and pop: "Pop q = (poppedIdx, q0)" "\<not> poppedIdx < 0"
    for polyline q cur poppedIdx q0
  proof -
    from v [OF vis] obtain L where inv: "loop_inv input this c L (polyline, q, cur)" by blast
    from remove_popped_inv [OF assms inv pop] obtain a A p n B pl' q' where
      L: "L = A @ p # a # n # B" and i: "poppedIdx = int a"
      and r: "removable (Vertices polyline ! a)" "prev (Vertices polyline ! a) = Some p"
        "next_v (Vertices polyline ! a) = Some n"
      and rp: "remove_popped input this polyline q0 poppedIdx = Some (pl', q')"
      by blast
    from inv have li: "linked (Vertices polyline) L" and hd: "hd L = 0" and lst: "last L = length c - 1"
      and st: "static c (Vertices polyline)"
      by (simp_all add: loop_inv_def)
    note s = linked_split [OF li [unfolded L]]
    have lv: "live polyline x" if "x \<in> set L" for x using live_linked [OF li hd that] .
    have a: "a < length (Vertices polyline)" using s by simp
    have "0 < a \<and> Suc a < length c" using r(1) st a by (simp add: static_def)
    then have bnd: "0 < poppedIdx \<and> poppedIdx < int (length c) - 1" using i by auto
    have "nth_at (Vertices polyline) poppedIdx = Some (Vertices polyline ! a)"
      using a i by simp
    moreover have "live polyline (nat poppedIdx)" "live polyline p" "live polyline n"
      using lv i by (simp_all add: L)
    ultimately show ?thesis using r rp bnd by blast
  qed
  with s0 show ?thesis by blast
qed

theorem popped_slot_is_interior_and_linked_witness:
  "\<exists>s0. start_state collinear_input new_vtkDecimatePolylineFilter [] (crossing_lines ! 0) = Some s0 \<and>
     (\<forall>polyline q cur poppedIdx q0.
        visits collinear_input new_vtkDecimatePolylineFilter (int (length (crossing_lines ! 0))) s0 (polyline, q, cur) \<and>
        Pop q = (poppedIdx, q0) \<and> \<not> poppedIdx < 0 \<longrightarrow>
        (\<exists>v p n. nth_at (Vertices polyline) poppedIdx = Some v \<and> removable v \<and>
           0 < poppedIdx \<and> poppedIdx < int (length (crossing_lines ! 0)) - 1 \<and> live polyline (nat poppedIdx) \<and>
           prev v = Some p \<and> live polyline p \<and> next_v v = Some n \<and> live polyline n) \<and>
        (\<exists>polyline' q'. remove_popped collinear_input new_vtkDecimatePolylineFilter polyline q0 poppedIdx = Some (polyline', q')))"
  by (rule popped_slot_is_interior_and_linked [where pts = collinear_points])
    (simp_all add: wf_cell_def crossing_lines_def collinear_points_def collinear_input_def)

end
